theory Spec2Isabelle
  imports Main
begin

section \<open>The crawler of g4.py\<close>

text \<open>
  A shallow embedding of \<^verbatim>\<open>AggressiveCrawlerGUI\<close> (src/g4.py). The fields of the object
  that the crawl reads and writes are a record; the file system is a map from paths to
  contents; the log widget \<^verbatim>\<open>output_area\<close> is the list of the lines inserted, one
  constructor per format string of the source. Everything the program obtains from
  outside (the network, the HTML parser, \<^verbatim>\<open>urllib.parse\<close>, the disk, the operator's
  stop button) is a field of the record \<open>env\<close>, so that every theorem about the crawl
  holds for every behaviour of these.
\<close>

subsection \<open>Strings and integers of the Python runtime\<close>

abbreviation nl :: char where
  "nl \<equiv> CHR 0x0A"

text \<open>\<^verbatim>\<open>str.isspace\<close> on the code points below 256.\<close>

definition is_space :: "char \<Rightarrow> bool" where
  "is_space c = (of_char c \<in> {9, 10, 11, 12, 13, 28, 29, 30, 31, 32, 133, 160 :: nat})"

text \<open>\<^verbatim>\<open>s.strip()\<close>\<close>

definition py_strip :: "string \<Rightarrow> string" where
  "py_strip s = rev (dropWhile is_space (rev (dropWhile is_space s)))"

definition is_digit :: "char \<Rightarrow> bool" where
  "is_digit c = (48 \<le> (of_char c :: nat) \<and> (of_char c :: nat) \<le> 57)"

text \<open>
  The digits of a decimal literal as \<^verbatim>\<open>int()\<close> accepts them: at least one digit, single
  underscores allowed between digits only. \<open>prev\<close> tells whether the character before
  was a digit.
\<close>

fun digits_ok :: "bool \<Rightarrow> string \<Rightarrow> bool" where
  "digits_ok prev [] = prev"
| "digits_ok prev (c # cs) =
     (if is_digit c then digits_ok True cs
      else if c = CHR ''_'' \<and> prev then digits_ok False cs
      else False)"

fun digits_value :: "int \<Rightarrow> string \<Rightarrow> int" where
  "digits_value acc [] = acc"
| "digits_value acc (c # cs) =
     (if is_digit c then digits_value (10 * acc + (int (of_char c) - 48)) cs
      else digits_value acc cs)"

text \<open>
  \<^verbatim>\<open>int(s)\<close>: \<open>None\<close> is the \<^verbatim>\<open>ValueError\<close>. The white space that \<^verbatim>\<open>int\<close> skips around
  the literal is not that of \<^verbatim>\<open>strip\<close>: the separators 28 to 31 are not skipped.
\<close>

definition int_space :: "char \<Rightarrow> bool" where
  "int_space c = (of_char c \<in> {9, 10, 11, 12, 13, 32, 133, 160 :: nat})"

definition py_int :: "string \<Rightarrow> int option" where
  "py_int s =
     (case rev (dropWhile int_space (rev (dropWhile int_space s))) of
        [] \<Rightarrow> None
      | c # cs \<Rightarrow>
          (let neg = (c = CHR ''-'');
               ds = (if c = CHR ''-'' \<or> c = CHR ''+'' then cs else c # cs)
           in if digits_ok False ds
              then Some (if neg then - digits_value 0 ds else digits_value 0 ds)
              else None))"

text \<open>\<^verbatim>\<open>s.startswith(p)\<close>\<close>

definition startswith :: "string \<Rightarrow> string \<Rightarrow> bool" where
  "startswith s p = (take (length p) s = p)"

text \<open>The decimal digit for a number below ten.\<close>

definition digit_char :: "nat \<Rightarrow> char" where
  "digit_char n = ''0123456789'' ! n"

text \<open>\<^verbatim>\<open>str(n)\<close> for a natural number, and for an integer as the format string renders it.\<close>

fun str_nat :: "nat \<Rightarrow> string" where
  "str_nat n = (if n < 10 then [digit_char n] else str_nat (n div 10) @ [digit_char (n mod 10)])"

declare str_nat.simps [simp del]

definition str_int :: "int \<Rightarrow> string" where
  "str_int i = (if i < 0 then CHR ''-'' # str_nat (nat (- i)) else str_nat (nat i))"

subsection \<open>The outside world\<close>

text \<open>
  The exceptions \<^verbatim>\<open>requests\<close> raises, all of them subclasses of
  \<^verbatim>\<open>RequestException\<close>, which is what \<^verbatim>\<open>scrape_page\<close> catches.
\<close>

datatype request_exception = Timeout | ConnectionError | HTTPError int | OtherRequestException

text \<open>The exceptions that nothing in the program catches.\<close>

datatype exn = OSError | ValueError

record response =
  status_code :: int
  resp_text :: string

datatype get_outcome = Raises request_exception | Returns response

text \<open>
  What happens to a write on the disk: it goes through, \<^verbatim>\<open>open\<close> raises, or the write
  raises after some characters of the data have reached the file.
\<close>

datatype io_outcome = IoOk | OpenFails | WriteFails nat

record env =
  get :: "string \<Rightarrow> get_outcome"
    \<comment> \<open>\<^verbatim>\<open>requests.get(url, timeout=10)\<close>\<close>
  soup_text :: "string \<Rightarrow> string"
    \<comment> \<open>\<^verbatim>\<open>BeautifulSoup(html, "html.parser").get_text(separator="\n").strip()\<close>\<close>
  soup_hrefs :: "string \<Rightarrow> string option list"
    \<comment> \<open>\<^verbatim>\<open>link.get("href")\<close> for each \<^verbatim>\<open>link\<close> of \<^verbatim>\<open>soup.find_all("a")\<close>, in document order\<close>
  urljoin :: "string \<Rightarrow> string \<Rightarrow> exn + string"
    \<comment> \<open>\<^verbatim>\<open>urllib.parse.urljoin\<close>, which may raise \<^verbatim>\<open>ValueError\<close>\<close>
  urlparse_scheme :: "string \<Rightarrow> exn + string"
    \<comment> \<open>\<^verbatim>\<open>urlparse(u).scheme\<close>, which may raise \<^verbatim>\<open>ValueError\<close>\<close>
  create_io :: "string \<Rightarrow> io_outcome"
    \<comment> \<open>the fate of \<^verbatim>\<open>open(path, "w")\<close> and its write, by path\<close>
  append_io :: "string \<Rightarrow> io_outcome"
    \<comment> \<open>the fate of \<^verbatim>\<open>open(path, "a")\<close> and its writes, by the URL of the page recorded\<close>
  stop_before :: "nat \<Rightarrow> bool"
    \<comment> \<open>whether the operator's \<^verbatim>\<open>stop_scraping\<close> ran before the loop test number \<open>i\<close>\<close>

subsection \<open>The state of the crawler\<close>

datatype log_entry =
    InfoOutputFile string                 \<comment> \<open>\<^verbatim>\<open>[INFO] Output file: {self.output_file}\<close>\<close>
  | InfoStarting string                   \<comment> \<open>\<^verbatim>\<open>[INFO] Starting BFS from: {url}\<close>\<close>
  | InfoStopRequested                     \<comment> \<open>\<^verbatim>\<open>[INFO] Stop requested...\<close>\<close>
  | InfoFinished int                      \<comment> \<open>\<^verbatim>\<open>[INFO] BFS finished. Total pages scraped: {page_count}\<close>\<close>
  | LogError string request_exception     \<comment> \<open>\<^verbatim>\<open>[ERROR] {url} => {e}\<close>\<close>
  | LogScraped int string                 \<comment> \<open>\<^verbatim>\<open>[SCRAPED] Page #{page_id}: {url}\<close>\<close>

record crawler =
  queue :: "string list"
  visited :: "string set"
  running :: bool
  output_file :: string
  output_area :: "log_entry list"
  files :: "string \<Rightarrow> string option"
  threads :: "int list"
    \<comment> \<open>the \<^verbatim>\<open>run_bfs\<close> threads started so far, each with its \<^verbatim>\<open>max_pages\<close>\<close>

subsection \<open>Files\<close>

datatype open_mode = ModeW | ModeA

text \<open>
  \<^verbatim>\<open>with open(path, mode) as f: f.write(data)\<close>. Mode \<^verbatim>\<open>"w"\<close> truncates, mode \<^verbatim>\<open>"a"\<close>
  keeps what the file holds (and creates it when it is missing). The boolean tells whether
  the block ended without an exception.
\<close>

definition py_write ::
  "open_mode \<Rightarrow> io_outcome \<Rightarrow> string \<Rightarrow> string \<Rightarrow> (string \<Rightarrow> string option) \<Rightarrow> bool \<times> (string \<Rightarrow> string option)" where
  "py_write m io path data fs =
     (let old = (case m of ModeW \<Rightarrow> [] | ModeA \<Rightarrow> (case fs path of None \<Rightarrow> [] | Some c \<Rightarrow> c))
      in case io of
           OpenFails \<Rightarrow> (False, fs)
         | WriteFails k \<Rightarrow> (False, fs(path \<mapsto> old @ take k data))
         | IoOk \<Rightarrow> (True, fs(path \<mapsto> old @ data)))"

definition header :: string where
  "header = ''=== Begin scraping ==='' @ [nl]"

text \<open>The three writes of \<^verbatim>\<open>scrape_page\<close>, in a row.\<close>

definition page_record :: "int \<Rightarrow> string \<Rightarrow> string \<Rightarrow> string" where
  "page_record page_id url text_content =
     ([nl] @ ''=== Page #'' @ str_int page_id @ '': '' @ url @ '' ==='' @ [nl, nl])
     @ text_content
     @ [nl, nl]"

definition get_timestamped_filename :: "string \<Rightarrow> string" where
  "get_timestamped_filename timestamp = ''scraped_data_'' @ timestamp @ ''.txt''"

subsection \<open>start_scraping and stop_scraping\<close>

datatype start_outcome =
    Started int           \<comment> \<open>the thread was started, with this \<^verbatim>\<open>max_pages\<close>\<close>
  | ShowError string      \<comment> \<open>\<^verbatim>\<open>messagebox.showerror\<close>, then \<^verbatim>\<open>return\<close>\<close>
  | StartRaised exn       \<comment> \<open>an exception left the method\<close>

text \<open>
  \<open>timestamp\<close> is what the clock gives at the call, \<open>use_existing\<close>, \<open>url_entry\<close> and
  \<open>max_pages_entry\<close> are the three widgets read.
\<close>

definition start_scraping ::
  "env \<Rightarrow> string \<Rightarrow> bool \<Rightarrow> string \<Rightarrow> string \<Rightarrow> crawler \<Rightarrow> start_outcome \<times> crawler" where
  "start_scraping e timestamp use_existing url_entry max_pages_entry s =
     (let s1 = (if \<not> use_existing
                then s\<lparr>output_file := get_timestamped_filename timestamp\<rparr> else s);
          s2 = s1\<lparr>queue := [], visited := {}\<rparr>;
          url = py_strip url_entry
      in if url = [] then (ShowError ''Please provide a starting URL.'', s2)
         else case py_int max_pages_entry of
           None \<Rightarrow> (ShowError ''Max pages must be an integer.'', s2)
         | Some max_pages \<Rightarrow>
             (let s3 = s2\<lparr>queue := queue s2 @ [url], visited := insert url (visited s2)\<rparr>;
                  s4 = s3\<lparr>output_area := [InfoOutputFile (output_file s3), InfoStarting url]\<rparr>;
                  w = py_write ModeW (create_io e (output_file s4)) (output_file s4) header (files s4);
                  s5 = s4\<lparr>files := snd w\<rparr>
              in if \<not> fst w then (StartRaised OSError, s5)
                 else (Started max_pages, s5\<lparr>running := True, threads := threads s5 @ [max_pages]\<rparr>)))"

definition stop_scraping :: "crawler \<Rightarrow> crawler" where
  "stop_scraping s = s\<lparr>running := False, output_area := output_area s @ [InfoStopRequested]\<rparr>"

subsection \<open>scrape_page\<close>

text \<open>\<^verbatim>\<open>resp.raise_for_status()\<close> raises for the 4xx and 5xx status codes.\<close>

definition raise_for_status :: "response \<Rightarrow> request_exception option" where
  "raise_for_status resp =
     (if 400 \<le> status_code resp \<and> status_code resp < 600
      then Some (HTTPError (status_code resp)) else None)"

text \<open>The \<^verbatim>\<open>try\<close> block of \<^verbatim>\<open>scrape_page\<close>.\<close>

definition fetch :: "env \<Rightarrow> string \<Rightarrow> request_exception + response" where
  "fetch e url =
     (case get e url of
        Raises err \<Rightarrow> Inl err
      | Returns resp \<Rightarrow>
          (case raise_for_status resp of Some err \<Rightarrow> Inl err | None \<Rightarrow> Inr resp))"

text \<open>
  The innermost \<^verbatim>\<open>if\<close> of the link loop (lines 190 to 192): the Frontier's \<open>offer\<close>.
\<close>

definition offer :: "string \<Rightarrow> crawler \<Rightarrow> crawler" where
  "offer absolute_url s =
     (if absolute_url \<notin> visited s
      then s\<lparr>visited := insert absolute_url (visited s), queue := queue s @ [absolute_url]\<rparr>
      else s)"

text \<open>
  The loop \<^verbatim>\<open>for link in soup.find_all("a")\<close> over the \<^verbatim>\<open>href\<close> values. The result is
  the exception that ended the loop, if one did.
\<close>

fun link_loop :: "env \<Rightarrow> string \<Rightarrow> string option list \<Rightarrow> crawler \<Rightarrow> exn option \<times> crawler" where
  "link_loop e url [] s = (None, s)"
| "link_loop e url (href # links) s =
     (case href of
        None \<Rightarrow> link_loop e url links s
      | Some h \<Rightarrow>
          if h = [] then link_loop e url links s
          else (case urljoin e url h of
                  Inl ex \<Rightarrow> (Some ex, s)
                | Inr absolute_url \<Rightarrow>
                    (case urlparse_scheme e absolute_url of
                       Inl ex \<Rightarrow> (Some ex, s)
                     | Inr scheme \<Rightarrow>
                         if startswith scheme ''http''
                         then link_loop e url links (offer absolute_url s)
                         else link_loop e url links s)))"

text \<open>The \<^verbatim>\<open>with open(self.output_file, "a")\<close> block of \<^verbatim>\<open>scrape_page\<close>.\<close>

definition append_record :: "env \<Rightarrow> string \<Rightarrow> int \<Rightarrow> string \<Rightarrow> crawler \<Rightarrow> bool \<times> crawler" where
  "append_record e url page_id text_content s =
     (let w = py_write ModeA (append_io e url) (output_file s)
                (page_record page_id url text_content) (files s)
      in (fst w, s\<lparr>files := snd w\<rparr>))"

definition scrape_page :: "env \<Rightarrow> string \<Rightarrow> int \<Rightarrow> crawler \<Rightarrow> (exn + bool) \<times> crawler" where
  "scrape_page e url page_id s =
     (case fetch e url of
        Inl err \<Rightarrow> (Inr False, s\<lparr>output_area := output_area s @ [LogError url err]\<rparr>)
      | Inr resp \<Rightarrow>
          (let text_content = soup_text e (resp_text resp);
               w = append_record e url page_id text_content s
           in if \<not> fst w then (Inl OSError, snd w)
              else (let s2 = (snd w)\<lparr>output_area := output_area (snd w) @ [LogScraped page_id url]\<rparr>;
                        r = link_loop e url (soup_hrefs e (resp_text resp)) s2
                    in case fst r of
                         Some ex \<Rightarrow> (Inl ex, snd r)
                       | None \<Rightarrow> (Inr True, snd r))))"

subsection \<open>run_bfs\<close>

text \<open>
  The \<^verbatim>\<open>while\<close> loop of \<^verbatim>\<open>run_bfs\<close>. \<open>i\<close> counts the loop tests; before each one the
  operator may have pressed the stop button. An exception of \<^verbatim>\<open>scrape_page\<close> leaves the
  loop and the method (\<open>Inl\<close>); otherwise the loop ends with the page count (\<open>Inr\<close>).
\<close>

function bfs_loop :: "env \<Rightarrow> int \<Rightarrow> nat \<Rightarrow> int \<Rightarrow> crawler \<Rightarrow> (exn + int) \<times> crawler" where
  "bfs_loop e max_pages i page_count s =
     (let s1 = (if stop_before e i then stop_scraping s else s)
      in if running s1 \<and> page_count < max_pages \<and> queue s1 \<noteq> [] then
           (let current_url = hd (queue s1);
                r = scrape_page e current_url (page_count + 1) (s1\<lparr>queue := tl (queue s1)\<rparr>)
            in case fst r of
                 Inl ex \<Rightarrow> (Inl ex, snd r)
               | Inr success \<Rightarrow>
                   if success then bfs_loop e max_pages (Suc i) (page_count + 1) (snd r)
                   else bfs_loop e max_pages (Suc i) page_count (snd r))
         else (Inr page_count, s1))"
  by pat_completeness auto
termination
proof (relation "measures [\<lambda>(e, max_pages, i, page_count, s). nat (max_pages - page_count),
                           \<lambda>(e, max_pages, i, page_count, s). length (queue s)]", goal_cases)
  case 1
  show ?case by simp
next
  case (2 e max_pages i page_count s s1 current_url r success)
  then show ?case by simp
next
  case (3 e max_pages i page_count s s1 current_url r success)
  from 3 have ne: "queue s1 \<noteq> []" by simp
  have "fst r = Inr False" using 3 by simp
  then have "queue (snd r) = tl (queue s1)"
    unfolding \<open>r = _\<close>
    by (auto simp: scrape_page_def Let_def split: sum.splits if_splits option.splits)
  moreover have "queue s1 = queue s"
    using 3 by (simp add: stop_scraping_def)
  ultimately show ?case using ne by (cases "queue s") auto
qed

declare bfs_loop.simps [simp del]

definition run_bfs :: "env \<Rightarrow> int \<Rightarrow> crawler \<Rightarrow> (exn + int) \<times> crawler" where
  "run_bfs e max_pages s =
     (case bfs_loop e max_pages 0 0 s of
        (Inl ex, s') \<Rightarrow> (Inl ex, s')
      | (Inr page_count, s') \<Rightarrow>
          (Inr page_count,
           s'\<lparr>output_area := output_area s' @ [InfoFinished page_count], running := False\<rparr>))"

section \<open>A model of urllib.parse\<close>

text \<open>
  \<^verbatim>\<open>urljoin\<close> and \<^verbatim>\<open>urlparse\<close> of the standard library (CPython 3.11), for strings of
  code points below 256, on which \<^verbatim>\<open>_checknetloc\<close> never raises. The check of a host
  in brackets (\<^verbatim>\<open>_check_bracketed_host\<close>, which parses IP addresses) is the parameter
  \<open>bracket_ok\<close>. These functions can instantiate the fields \<open>urljoin\<close> and
  \<open>urlparse_scheme\<close> of \<open>env\<close>.
\<close>

definition uses_relative :: "string list" where
  "uses_relative = ['''', ''ftp'', ''http'', ''gopher'', ''nntp'', ''imap'',
     ''wais'', ''file'', ''https'', ''shttp'', ''mms'',
     ''prospero'', ''rtsp'', ''rtsps'', ''rtspu'', ''sftp'',
     ''svn'', ''svn+ssh'', ''ws'', ''wss'']"

definition uses_netloc :: "string list" where
  "uses_netloc = ['''', ''ftp'', ''http'', ''gopher'', ''nntp'', ''telnet'',
     ''imap'', ''wais'', ''file'', ''mms'', ''https'', ''shttp'',
     ''snews'', ''prospero'', ''rtsp'', ''rtsps'', ''rtspu'', ''rsync'',
     ''svn'', ''svn+ssh'', ''sftp'', ''nfs'', ''git'', ''git+ssh'',
     ''ws'', ''wss'']"

definition uses_params :: "string list" where
  "uses_params = ['''', ''ftp'', ''hdl'', ''prospero'', ''http'', ''imap'',
     ''https'', ''shttp'', ''rtsp'', ''rtsps'', ''rtspu'', ''sip'',
     ''sips'', ''mms'', ''sftp'', ''tel'']"

definition is_upper :: "char \<Rightarrow> bool" where
  "is_upper c = (65 \<le> (of_char c :: nat) \<and> (of_char c :: nat) \<le> 90)"

definition is_lower :: "char \<Rightarrow> bool" where
  "is_lower c = (97 \<le> (of_char c :: nat) \<and> (of_char c :: nat) \<le> 122)"

definition scheme_char :: "char \<Rightarrow> bool" where
  "scheme_char c = (is_lower c \<or> is_upper c \<or> is_digit c \<or> c \<in> set ''+-.'')"

definition lower_char :: "char \<Rightarrow> char" where
  "lower_char c = (if is_upper c then char_of (of_char c + (32 :: nat)) else c)"

definition c0_or_space :: "char \<Rightarrow> bool" where
  "c0_or_space c = ((of_char c :: nat) \<le> 32)"

definition unsafe_byte :: "char \<Rightarrow> bool" where
  "unsafe_byte c = (of_char c \<in> {9, 13, 10 :: nat})"

text \<open>\<^verbatim>\<open>s.split(c, 1)\<close> when \<open>c\<close> occurs in \<open>s\<close>: the text before and after the first \<open>c\<close>.\<close>

definition split_first :: "char \<Rightarrow> string \<Rightarrow> string \<times> string" where
  "split_first c s = (takeWhile (\<lambda>x. x \<noteq> c) s, drop 1 (dropWhile (\<lambda>x. x \<noteq> c) s))"

text \<open>\<^verbatim>\<open>s.split(c)\<close> and \<^verbatim>\<open>c.join(ws)\<close>\<close>

fun py_split :: "char \<Rightarrow> string \<Rightarrow> string list" where
  "py_split c [] = [Nil]"
| "py_split c (x # xs) =
     (if x = c then [] # py_split c xs
      else (case py_split c xs of [] \<Rightarrow> [x] # Nil | w # ws \<Rightarrow> (x # w) # ws))"

fun py_join :: "char \<Rightarrow> string list \<Rightarrow> string" where
  "py_join c [] = []"
| "py_join c [w] = w"
| "py_join c (w # ws) = w @ [c] @ py_join c ws"

record split_result =
  sr_scheme :: string
  sr_netloc :: string
  sr_path :: string
  sr_query :: string
  sr_fragment :: string

record parse_result =
  scheme :: string
  netloc :: string
  path :: string
  params :: string
  query :: string
  fragment :: string

text \<open>The test on the brackets of a netloc in \<^verbatim>\<open>urlsplit\<close>: true when it raises.\<close>

definition netloc_raises :: "(string \<Rightarrow> bool) \<Rightarrow> string \<Rightarrow> bool" where
  "netloc_raises bracket_ok nloc =
     (let lb = (CHR ''['' \<in> set nloc); rb = (CHR '']'' \<in> set nloc)
      in (lb \<and> \<not> rb) \<or> (rb \<and> \<not> lb) \<or>
         (lb \<and> rb \<and>
          \<not> bracket_ok (takeWhile (\<lambda>x. x \<noteq> CHR '']'')
                          (drop 1 (dropWhile (\<lambda>x. x \<noteq> CHR ''['') nloc)))))"

definition urlsplit :: "(string \<Rightarrow> bool) \<Rightarrow> string \<Rightarrow> string \<Rightarrow> exn + split_result" where
  "urlsplit bracket_ok url0 scheme0 =
     (let url1 = filter (\<lambda>c. \<not> unsafe_byte c) (dropWhile c0_or_space url0);
          scheme1 = filter (\<lambda>c. \<not> unsafe_byte c)
                      (rev (dropWhile c0_or_space (rev (dropWhile c0_or_space scheme0))));
          pre = takeWhile (\<lambda>x. x \<noteq> CHR '':'') url1;
          found = (CHR '':'' \<in> set url1 \<and> pre \<noteq> []
                   \<and> (is_lower (hd url1) \<or> is_upper (hd url1))
                   \<and> list_all scheme_char pre);
          scheme2 = (if found then map lower_char pre else scheme1);
          url2 = (if found then drop (Suc (length pre)) url1 else url1);
          has_netloc = (take 2 url2 = ''//'');
          nloc = (if has_netloc then takeWhile (\<lambda>x. x \<notin> set ''/?#'') (drop 2 url2) else []);
          url3 = (if has_netloc then dropWhile (\<lambda>x. x \<notin> set ''/?#'') (drop 2 url2) else url2)
      in if has_netloc \<and> netloc_raises bracket_ok nloc then Inl ValueError
         else (let frag = (if CHR ''#'' \<in> set url3 then snd (split_first CHR ''#'' url3) else []);
                   url4 = (if CHR ''#'' \<in> set url3 then fst (split_first CHR ''#'' url3) else url3);
                   qry = (if CHR ''?'' \<in> set url4 then snd (split_first CHR ''?'' url4) else []);
                   url5 = (if CHR ''?'' \<in> set url4 then fst (split_first CHR ''?'' url4) else url4)
               in Inr \<lparr>sr_scheme = scheme2, sr_netloc = nloc, sr_path = url5,
                       sr_query = qry, sr_fragment = frag\<rparr>))"

definition splitparams :: "string \<Rightarrow> string \<times> string" where
  "splitparams url =
     (if CHR ''/'' \<in> set url then
        (let tail = rev (takeWhile (\<lambda>x. x \<noteq> CHR ''/'') (rev url));
             front = take (length url - length tail) url
         in if CHR '';'' \<notin> set tail then (url, [])
            else (front @ fst (split_first CHR '';'' tail), snd (split_first CHR '';'' tail)))
      else if CHR '';'' \<in> set url then split_first CHR '';'' url
      else (butlast url, url))"

definition urlparse :: "(string \<Rightarrow> bool) \<Rightarrow> string \<Rightarrow> string \<Rightarrow> exn + parse_result" where
  "urlparse bracket_ok url scheme0 =
     (case urlsplit bracket_ok url scheme0 of
        Inl ex \<Rightarrow> Inl ex
      | Inr r \<Rightarrow>
          (let sp = (sr_scheme r \<in> set uses_params \<and> CHR '';'' \<in> set (sr_path r))
           in Inr \<lparr>scheme = sr_scheme r, netloc = sr_netloc r,
                   path = (if sp then fst (splitparams (sr_path r)) else sr_path r),
                   params = (if sp then snd (splitparams (sr_path r)) else []),
                   query = sr_query r, fragment = sr_fragment r\<rparr>))"

definition urlunsplit :: "split_result \<Rightarrow> string" where
  "urlunsplit r =
     (let url1 = (if sr_netloc r \<noteq> [] \<or> (sr_scheme r \<noteq> [] \<and> sr_scheme r \<in> set uses_netloc)
                     \<or> take 2 (sr_path r) = ''//''
                  then ''//'' @ sr_netloc r @
                       (if sr_path r \<noteq> [] \<and> take 1 (sr_path r) \<noteq> ''/''
                        then ''/'' @ sr_path r else sr_path r)
                  else sr_path r);
          url2 = (if sr_scheme r \<noteq> [] then sr_scheme r @ '':'' @ url1 else url1);
          url3 = (if sr_query r \<noteq> [] then url2 @ ''?'' @ sr_query r else url2)
      in if sr_fragment r \<noteq> [] then url3 @ ''#'' @ sr_fragment r else url3)"

definition urlunparse :: "parse_result \<Rightarrow> string" where
  "urlunparse p =
     urlunsplit \<lparr>sr_scheme = scheme p, sr_netloc = netloc p,
                 sr_path = (if params p \<noteq> [] then path p @ '';'' @ params p else path p),
                 sr_query = query p, sr_fragment = fragment p\<rparr>"

text \<open>The loop of \<^verbatim>\<open>urljoin\<close> over the segments, with \<^verbatim>\<open>..\<close> and \<^verbatim>\<open>.\<close> resolved.\<close>

fun resolve_segments :: "string list \<Rightarrow> string list \<Rightarrow> string list" where
  "resolve_segments resolved [] = resolved"
| "resolve_segments resolved (seg # segs) =
     (if seg = ''..'' then resolve_segments (butlast resolved) segs
      else if seg = ''.'' then resolve_segments resolved segs
      else resolve_segments (resolved @ [seg]) segs)"

text \<open>\<^verbatim>\<open>segments[1:-1] = filter(None, segments[1:-1])\<close>\<close>

definition drop_empty_inner :: "string list \<Rightarrow> string list" where
  "drop_empty_inner segs =
     (if length segs < 2 then segs
      else hd segs # filter (\<lambda>w. w \<noteq> []) (butlast (tl segs)) @ [last segs])"

definition py_urljoin :: "(string \<Rightarrow> bool) \<Rightarrow> string \<Rightarrow> string \<Rightarrow> exn + string" where
  "py_urljoin bracket_ok base url =
     (if base = [] then Inr url
      else if url = [] then Inr base
      else case urlparse bracket_ok base [] of
        Inl ex \<Rightarrow> Inl ex
      | Inr b \<Rightarrow>
         (case urlparse bracket_ok url (scheme b) of
            Inl ex \<Rightarrow> Inl ex
          | Inr u \<Rightarrow>
             if scheme u \<noteq> scheme b \<or> scheme u \<notin> set uses_relative then Inr url
             else if scheme u \<in> set uses_netloc \<and> netloc u \<noteq> [] then Inr (urlunparse u)
             else
               (let nloc = (if scheme u \<in> set uses_netloc then netloc b else netloc u)
                in if path u = [] \<and> params u = [] then
                     Inr (urlunparse (u\<lparr>netloc := nloc, path := path b, params := params b,
                            query := (if query u = [] then query b else query u)\<rparr>))
                   else
                     (let base_parts0 = py_split CHR ''/'' (path b);
                          base_parts = (if last base_parts0 \<noteq> [] then butlast base_parts0
                                        else base_parts0);
                          segments = (if take 1 (path u) = ''/'' then py_split CHR ''/'' (path u)
                                      else drop_empty_inner (base_parts @ py_split CHR ''/'' (path u)));
                          resolved0 = resolve_segments [] segments;
                          resolved_path = (if last segments = ''.'' \<or> last segments = ''..''
                                           then resolved0 @ [Nil] else resolved0);
                          joined = py_join CHR ''/'' resolved_path
                      in Inr (urlunparse (u\<lparr>netloc := nloc,
                                path := (if joined = [] then ''/'' else joined)\<rparr>))))))"

definition py_urlparse_scheme :: "(string \<Rightarrow> bool) \<Rightarrow> string \<Rightarrow> exn + string" where
  "py_urlparse_scheme bracket_ok url =
     (case urlparse bracket_ok url [] of Inl ex \<Rightarrow> Inl ex | Inr p \<Rightarrow> Inr (scheme p))"

section \<open>Notions used to state the properties\<close>

text \<open>
  The URL a log line reports as fetched: each URL taken from the queue is logged either as
  an error or as scraped (unless an uncaught exception ended the run first).
\<close>

fun entry_url :: "log_entry \<Rightarrow> string list" where
  "entry_url (LogError url err) = [url]"
| "entry_url (LogScraped page_id url) = [url]"
| "entry_url other = []"

definition popped_urls :: "log_entry list \<Rightarrow> string list" where
  "popped_urls entries = concat (map entry_url entries)"

fun is_scraped :: "log_entry \<Rightarrow> bool" where
  "is_scraped (LogScraped page_id url) = True"
| "is_scraped other = False"

fun is_finished :: "log_entry \<Rightarrow> bool" where
  "is_finished (InfoFinished n) = True"
| "is_finished other = False"

fun scraped_id :: "log_entry \<Rightarrow> int list" where
  "scraped_id (LogScraped page_id url) = [page_id]"
| "scraped_id other = []"

text \<open>The lines the log gained between two states.\<close>

definition log_since :: "crawler \<Rightarrow> crawler \<Rightarrow> log_entry list" where
  "log_since s s' = drop (length (output_area s)) (output_area s')"

text \<open>
  The record block that the page of a \<^verbatim>\<open>[SCRAPED]\<close> line put into the corpus file: the
  text is the one extracted from the response to that URL.
\<close>

fun record_of :: "env \<Rightarrow> log_entry \<Rightarrow> string" where
  "record_of e (LogScraped page_id url) =
     (case fetch e url of
        Inr resp \<Rightarrow> page_record page_id url (soup_text e (resp_text resp))
      | Inl err \<Rightarrow> [])"
| "record_of e other = []"

text \<open>
  The pages of the \<^verbatim>\<open>[SCRAPED]\<close> lines of a log, in order: page number, URL and the text
  extracted from the response to that URL.
\<close>

fun scraped_pages :: "env \<Rightarrow> log_entry list \<Rightarrow> (int \<times> string \<times> string) list" where
  "scraped_pages e [] = []"
| "scraped_pages e (LogScraped page_id url # entries) =
     (page_id, url,
      (case fetch e url of Inr resp \<Rightarrow> soup_text e (resp_text resp) | Inl err \<Rightarrow> []))
     # scraped_pages e entries"
| "scraped_pages e (other # entries) = scraped_pages e entries"

text \<open>
  The link extraction as the spec words it (4.3, \<open>extractLinks\<close>), to be compared with
  \<open>link_loop\<close>: each \<^verbatim>\<open>href\<close> is resolved against the base URL, and those whose scheme
  begins with \<^verbatim>\<open>http\<close> are yielded, in document order, duplicates included.
\<close>

fun extract_links :: "env \<Rightarrow> string \<Rightarrow> string option list \<Rightarrow> string list" where
  "extract_links e base [] = []"
| "extract_links e base (None # hrefs) = extract_links e base hrefs"
| "extract_links e base (Some h # hrefs) =
     (if h = [] then extract_links e base hrefs
      else case urljoin e base h of
        Inl ex \<Rightarrow> extract_links e base hrefs
      | Inr u \<Rightarrow>
          (case urlparse_scheme e u of
             Inl ex \<Rightarrow> extract_links e base hrefs
           | Inr sch \<Rightarrow>
               if startswith sch ''http'' then u # extract_links e base hrefs
               else extract_links e base hrefs))"

text \<open>The fields as \<^verbatim>\<open>__init__\<close> sets them, on a disk \<open>fs\<close>.\<close>

definition init :: "string \<Rightarrow> (string \<Rightarrow> string option) \<Rightarrow> crawler" where
  "init timestamp fs =
     \<lparr>queue = [], visited = {}, running = False,
      output_file = get_timestamped_filename timestamp,
      output_area = [], files = fs, threads = []\<rparr>"

subsection \<open>One turn of the loop\<close>

text \<open>
  The state at a loop test (after the operator's stop, if it came), the test of the
  \<^verbatim>\<open>while\<close>, and the body: \<^verbatim>\<open>popleft\<close>, then \<^verbatim>\<open>scrape_page\<close>.
\<close>

definition at_test :: "env \<Rightarrow> nat \<Rightarrow> crawler \<Rightarrow> crawler" where
  "at_test e i s = (if stop_before e i then stop_scraping s else s)"

definition loop_test :: "env \<Rightarrow> int \<Rightarrow> nat \<Rightarrow> int \<Rightarrow> crawler \<Rightarrow> bool" where
  "loop_test e max_pages i page_count s =
     (running (at_test e i s) \<and> page_count < max_pages \<and> queue (at_test e i s) \<noteq> [])"

definition loop_body :: "env \<Rightarrow> nat \<Rightarrow> int \<Rightarrow> crawler \<Rightarrow> (exn + bool) \<times> crawler" where
  "loop_body e i page_count s =
     scrape_page e (hd (queue (at_test e i s))) (page_count + 1)
       ((at_test e i s)\<lparr>queue := tl (queue (at_test e i s))\<rparr>)"

text \<open>
  The state once the record of a page is in the file and its \<^verbatim>\<open>[SCRAPED]\<close> line in the
  log, before the link loop.
\<close>

definition written :: "env \<Rightarrow> string \<Rightarrow> int \<Rightarrow> response \<Rightarrow> crawler \<Rightarrow> crawler" where
  "written e url k resp s =
     (snd (append_record e url k (soup_text e (resp_text resp)) s))
       \<lparr>output_area := output_area s @ [LogScraped k url]\<rparr>"

text \<open>
  The invariant of the Frontier: the URLs fetched so far and those waiting are all
  different, and all are in the visited set.
\<close>

definition frontier_ok :: "crawler \<Rightarrow> bool" where
  "frontier_ok s =
     (distinct (popped_urls (output_area s) @ queue s) \<and>
      set (popped_urls (output_area s) @ queue s) \<subseteq> visited s)"

text \<open>
  A log line agrees with the network: a \<^verbatim>\<open>[SCRAPED]\<close> line is for a URL whose fetch
  succeeds, an \<^verbatim>\<open>[ERROR]\<close> line carries the exception of the fetch.
\<close>

fun log_sound :: "env \<Rightarrow> log_entry \<Rightarrow> bool" where
  "log_sound e (LogScraped page_id url) = (case fetch e url of Inr resp \<Rightarrow> True | Inl err \<Rightarrow> False)"
| "log_sound e (LogError url err) = (fetch e url = Inl err)"
| "log_sound e other = True"

text \<open>
  The corpus file holds the header and then the record of each \<^verbatim>\<open>[SCRAPED]\<close> line of the
  log, in order.
\<close>

definition file_ok :: "env \<Rightarrow> crawler \<Rightarrow> bool" where
  "file_ok e s =
     (files s (output_file s) = Some (header @ concat (map (record_of e) (output_area s))))"

text \<open>Every file keeps what it held, at the front of what it holds now.\<close>

definition files_grow :: "crawler \<Rightarrow> crawler \<Rightarrow> bool" where
  "files_grow s s' = (\<forall>p c. files s p = Some c \<longrightarrow> (\<exists>c'. files s' p = Some (c @ c')))"

subsection \<open>A small web, for the examples\<close>

text \<open>
  Page \<^verbatim>\<open>http://a/\<close> links to \<^verbatim>\<open>http://a/b\<close> (twice), to itself, to a mail address and to
  \<^verbatim>\<open>http://a/c\<close>, and has two anchors without a target; \<^verbatim>\<open>http://a/b\<close> has no links;
  \<^verbatim>\<open>http://a/c\<close> does not answer. All links are absolute, so that resolving a link
  returns it, and the scheme is what precedes the colon.
\<close>

definition demo_get :: "string \<Rightarrow> get_outcome" where
  "demo_get url =
     (if url = ''http://a/'' then Returns \<lparr>status_code = 200, resp_text = ''A''\<rparr>
      else if url = ''http://a/b'' then Returns \<lparr>status_code = 200, resp_text = ''B''\<rparr>
      else Raises ConnectionError)"

definition demo_hrefs :: "string \<Rightarrow> string option list" where
  "demo_hrefs html =
     (if html = ''A''
      then [Some ''http://a/b'', None, Some [], Some ''http://a/'', Some ''mailto:x'',
            Some ''http://a/c'', Some ''http://a/b'']
      else [])"

definition demo_env :: env where
  "demo_env =
     \<lparr>get = demo_get, soup_text = (\<lambda>html. html), soup_hrefs = demo_hrefs,
      urljoin = (\<lambda>base h. Inr h),
      urlparse_scheme = (\<lambda>u. Inr (takeWhile (\<lambda>c. c \<noteq> CHR '':'') u)),
      create_io = (\<lambda>p. IoOk), append_io = (\<lambda>u. IoOk), stop_before = (\<lambda>i. False)\<rparr>"

text \<open>A first run on this web, from a fresh crawler: before, once started, and at its end.\<close>

definition demo_s0 :: crawler where
  "demo_s0 = init ''T0'' Map.empty"

definition demo_started :: crawler where
  "demo_started = snd (start_scraping demo_env ''T1'' False '' http://a/ '' ''5'' demo_s0)"

definition demo_finished :: crawler where
  "demo_finished = snd (run_bfs demo_env 5 demo_started)"

text \<open>
  Three other situations: the disk fails while the record of \<^verbatim>\<open>http://a/b\<close> is written,
  after three characters; every URL answers with status 304; and a crawler with two URLs
  waiting, the first of which does not answer.
\<close>

definition demo_env_disk :: env where
  "demo_env_disk =
     demo_env\<lparr>append_io := (\<lambda>url. if url = ''http://a/b'' then WriteFails 3 else IoOk)\<rparr>"

definition demo_env_304 :: env where
  "demo_env_304 = demo_env\<lparr>get := (\<lambda>url. Returns \<lparr>status_code = 304, resp_text = ''B''\<rparr>)\<rparr>"

definition demo_waiting :: crawler where
  "demo_waiting = demo_started\<lparr>queue := [''http://a/c'', ''http://a/b'']\<rparr>"

text \<open>The first run after one turn of its loop: one page scraped, two URLs waiting.\<close>

definition demo_mid :: crawler where
  "demo_mid = snd (loop_body demo_env 0 0 demo_started)"

text \<open>An environment whose URL functions are those of the model of \<^verbatim>\<open>urllib.parse\<close>.\<close>

definition py_env :: "(string \<Rightarrow> bool) \<Rightarrow> env \<Rightarrow> env" where
  "py_env bracket_ok e =
     e\<lparr>urljoin := py_urljoin bracket_ok, urlparse_scheme := py_urlparse_scheme bracket_ok\<rparr>"

text \<open>
  A crawler that has taken \<^verbatim>\<open>https://x.test/\<close> from its queue and is about to follow the
  links of that page.
\<close>

definition demo_page :: crawler where
  "demo_page = (init ''T0'' Map.empty)\<lparr>visited := {''https://x.test/''}\<rparr>"

section \<open>Properties of the crawl\<close>

subsection \<open>What the link loop leaves alone\<close>

lemma offer_frame [simp]:
  "running (offer u s) = running s" "output_file (offer u s) = output_file s"
  "output_area (offer u s) = output_area s" "files (offer u s) = files s"
  "threads (offer u s) = threads s"
  by (simp_all add: offer_def)

lemma link_loop_frame:
  "running (snd (link_loop e url links s)) = running s \<and>
   output_file (snd (link_loop e url links s)) = output_file s \<and>
   output_area (snd (link_loop e url links s)) = output_area s \<and>
   files (snd (link_loop e url links s)) = files s \<and>
   threads (snd (link_loop e url links s)) = threads s"
  by (induction links arbitrary: s) (auto split: option.split sum.split)

subsection \<open>Unfolding the loop\<close>

lemma bfs_loop_exit:
  "\<not> loop_test e max_pages i page_count s \<Longrightarrow>
   bfs_loop e max_pages i page_count s = (Inr page_count, at_test e i s)"
  by (subst bfs_loop.simps) (auto simp: loop_test_def at_test_def Let_def)

lemma bfs_loop_raised:
  "loop_test e max_pages i page_count s \<Longrightarrow> loop_body e i page_count s = (Inl ex, s') \<Longrightarrow>
   bfs_loop e max_pages i page_count s = (Inl ex, s')"
  by (subst bfs_loop.simps) (auto simp: loop_test_def loop_body_def at_test_def Let_def)

lemma bfs_loop_success:
  "loop_test e max_pages i page_count s \<Longrightarrow> loop_body e i page_count s = (Inr True, s') \<Longrightarrow>
   bfs_loop e max_pages i page_count s = bfs_loop e max_pages (Suc i) (page_count + 1) s'"
  by (subst bfs_loop.simps) (auto simp: loop_test_def loop_body_def at_test_def Let_def)

lemma bfs_loop_failure:
  "loop_test e max_pages i page_count s \<Longrightarrow> loop_body e i page_count s = (Inr False, s') \<Longrightarrow>
   bfs_loop e max_pages i page_count s = bfs_loop e max_pages (Suc i) page_count s'"
  by (subst bfs_loop.simps) (auto simp: loop_test_def loop_body_def at_test_def Let_def)

lemma bfs_loop_induct [case_names exit raised success failure]:
  assumes exit: "\<And>i page_count s. \<not> loop_test e max_pages i page_count s \<Longrightarrow> P i page_count s"
    and raised: "\<And>i page_count s ex s'. loop_test e max_pages i page_count s \<Longrightarrow>
                   loop_body e i page_count s = (Inl ex, s') \<Longrightarrow> P i page_count s"
    and success: "\<And>i page_count s s'. loop_test e max_pages i page_count s \<Longrightarrow>
                   loop_body e i page_count s = (Inr True, s') \<Longrightarrow>
                   P (Suc i) (page_count + 1) s' \<Longrightarrow> P i page_count s"
    and failure: "\<And>i page_count s s'. loop_test e max_pages i page_count s \<Longrightarrow>
                   loop_body e i page_count s = (Inr False, s') \<Longrightarrow>
                   P (Suc i) page_count s' \<Longrightarrow> P i page_count s"
  shows "P i page_count s"
  using assms
proof (induction e max_pages i page_count s rule: bfs_loop.induct)
  case (1 e max_pages i page_count s)
  note exit = "1.prems"(1) and raised = "1.prems"(2) and success = "1.prems"(3)
    and failure = "1.prems"(4)
  show ?case
  proof (cases "loop_test e max_pages i page_count s")
    case False
    then show ?thesis by (rule exit)
  next
    case True
    obtain r s' where body: "loop_body e i page_count s = (r, s')" by force
    have t: "running (if stop_before e i then stop_scraping s else s) \<and> page_count < max_pages \<and>
             queue (if stop_before e i then stop_scraping s else s) \<noteq> []"
      using True by (simp add: loop_test_def at_test_def)
    have b: "scrape_page e (hd (queue (if stop_before e i then stop_scraping s else s)))
               (page_count + 1)
               ((if stop_before e i then stop_scraping s else s)
                  \<lparr>queue := tl (queue (if stop_before e i then stop_scraping s else s))\<rparr>) = (r, s')"
      using body by (simp add: loop_body_def at_test_def)
    show ?thesis
    proof (cases r)
      case (Inl ex)
      then show ?thesis using True body by (auto intro: raised)
    next
      case (Inr ok)
      show ?thesis
      proof (cases ok)
        case True
        have "P (Suc i) (page_count + 1) s'"
          using "1.IH"(1) [OF refl t refl refl, of True] b Inr True "1.prems" by simp
        then show ?thesis using \<open>loop_test e max_pages i page_count s\<close> body Inr True
          by (auto intro: success)
      next
        case False
        have "P (Suc i) page_count s'"
          using "1.IH"(2) [OF refl t refl refl, of False] b Inr False "1.prems" by simp
        then show ?thesis using \<open>loop_test e max_pages i page_count s\<close> body Inr False
          by (auto intro: failure)
      qed
    qed
  qed
qed

subsection \<open>The outcomes of scrape_page\<close>

lemma append_record_frame [simp]:
  "queue (snd (append_record e url k t s)) = queue s"
  "visited (snd (append_record e url k t s)) = visited s"
  "running (snd (append_record e url k t s)) = running s"
  "output_file (snd (append_record e url k t s)) = output_file s"
  "output_area (snd (append_record e url k t s)) = output_area s"
  "threads (snd (append_record e url k t s)) = threads s"
  by (simp_all add: append_record_def Let_def)

lemma scrape_page_cases [case_names fetch_failed write_failed written]:
  obtains
    (fetch_failed) err where "fetch e url = Inl err"
      "scrape_page e url k s = (Inr False, s\<lparr>output_area := output_area s @ [LogError url err]\<rparr>)"
  | (write_failed) resp where "fetch e url = Inr resp"
      "\<not> fst (append_record e url k (soup_text e (resp_text resp)) s)"
      "scrape_page e url k s = (Inl OSError, snd (append_record e url k (soup_text e (resp_text resp)) s))"
  | (written) resp where "fetch e url = Inr resp"
      "fst (append_record e url k (soup_text e (resp_text resp)) s)"
      "scrape_page e url k s =
         (case fst (link_loop e url (soup_hrefs e (resp_text resp)) (written e url k resp s)) of
            Some ex \<Rightarrow> Inl ex | None \<Rightarrow> Inr True,
          snd (link_loop e url (soup_hrefs e (resp_text resp)) (written e url k resp s)))"
proof (cases "fetch e url")
  case (Inl err)
  then show ?thesis by (intro fetch_failed [of err]) (simp_all add: scrape_page_def)
next
  case (Inr resp)
  show ?thesis
  proof (cases "fst (append_record e url k (soup_text e (resp_text resp)) s)")
    case False
    then show ?thesis using Inr
      by (intro write_failed [of resp]) (simp_all add: scrape_page_def Let_def)
  next
    case True
    then show ?thesis using Inr
      by (intro written [of resp]) (simp_all add: scrape_page_def Let_def written_def split: option.split)
  qed
qed

subsection \<open>The invariant of the Frontier\<close>

text \<open>What the link loop appends to the queue was not visited before, and is appended once.\<close>

lemma link_loop_offers:
  "\<exists>new. queue (snd (link_loop e url links s)) = queue s @ new \<and>
         visited (snd (link_loop e url links s)) = visited s \<union> set new \<and>
         distinct new \<and> set new \<inter> visited s = {}"
proof (induction links arbitrary: s)
  case Nil
  show ?case by simp
next
  case (Cons href links)
  have step: "\<exists>new. queue (snd (link_loop e url links (offer u s))) = queue s @ new \<and>
         visited (snd (link_loop e url links (offer u s))) = visited s \<union> set new \<and>
         distinct new \<and> set new \<inter> visited s = {}" for u
  proof (cases "u \<in> visited s")
    case True
    then show ?thesis using Cons.IH [of s] by (simp add: offer_def)
  next
    case False
    from Cons.IH [of "offer u s"] obtain new where
      new: "queue (snd (link_loop e url links (offer u s))) = queue (offer u s) @ new"
        "visited (snd (link_loop e url links (offer u s))) = visited (offer u s) \<union> set new"
        "distinct new" "set new \<inter> visited (offer u s) = {}"
      by blast
    with False show ?thesis
      by (intro exI [of _ "u # new"]) (auto simp: offer_def)
  qed
  show ?case
    using Cons.IH [of s] step
    by (auto split: option.split sum.split simp del: ex_simps)
qed

lemma popped_urls_append [simp]: "popped_urls (xs @ ys) = popped_urls xs @ popped_urls ys"
  by (simp add: popped_urls_def)

lemma popped_urls_single [simp]:
  "popped_urls [LogError u err] = [u]" "popped_urls [LogScraped k u] = [u]"
  "popped_urls [InfoStopRequested] = []" "popped_urls [InfoFinished n] = []"
  "popped_urls [] = []"
  by (simp_all add: popped_urls_def)

lemma link_loop_frontier_ok:
  assumes "distinct (pop @ queue s)" "set (pop @ queue s) \<subseteq> visited s"
  shows "distinct (pop @ queue (snd (link_loop e url links s))) \<and>
         set (pop @ queue (snd (link_loop e url links s))) \<subseteq> visited (snd (link_loop e url links s))"
proof -
  obtain new where new: "queue (snd (link_loop e url links s)) = queue s @ new"
      "visited (snd (link_loop e url links s)) = visited s \<union> set new"
      "distinct new" "set new \<inter> visited s = {}"
    using link_loop_offers by blast
  show ?thesis using assms new by auto
qed

lemma scrape_page_frontier_ok:
  assumes ok: "frontier_ok s" and ne: "queue s \<noteq> []"
  shows "frontier_ok (snd (scrape_page e (hd (queue s)) k (s\<lparr>queue := tl (queue s)\<rparr>)))"
proof -
  obtain u rest where q: "queue s = u # rest" using ne by (cases "queue s") auto
  let ?s0 = "s\<lparr>queue := rest\<rparr>"
  let ?pop = "popped_urls (output_area s)"
  have d: "distinct (?pop @ u # rest)" and sub: "set (?pop @ u # rest) \<subseteq> visited s"
    using ok q by (simp_all add: frontier_ok_def)
  show ?thesis
  proof (cases rule: scrape_page_cases [where e = e and url = u and k = k and s = "?s0"])
    case (fetch_failed err)
    then show ?thesis using d sub q by (simp add: frontier_ok_def)
  next
    case (write_failed resp)
    then show ?thesis using d sub q by (simp add: frontier_ok_def)
  next
    case (written resp)
    let ?s2 = "written e u k resp ?s0"
    have "distinct ((?pop @ [u]) @ queue ?s2)" "set ((?pop @ [u]) @ queue ?s2) \<subseteq> visited ?s2"
      using d sub by (auto simp: written_def)
    from link_loop_frontier_ok [OF this, of e u "soup_hrefs e (resp_text resp)"]
    have "frontier_ok (snd (link_loop e u (soup_hrefs e (resp_text resp)) ?s2))"
      by (simp add: frontier_ok_def link_loop_frame written_def)
    then show ?thesis using written q by simp
  qed
qed

lemma at_test_frontier_ok: "frontier_ok s \<Longrightarrow> frontier_ok (at_test e i s)"
  by (simp add: frontier_ok_def at_test_def stop_scraping_def)

lemma loop_body_frontier_ok:
  "frontier_ok s \<Longrightarrow> loop_test e max_pages i page_count s \<Longrightarrow>
   loop_body e i page_count s = (r, s') \<Longrightarrow> frontier_ok s'"
  using scrape_page_frontier_ok [OF at_test_frontier_ok, where s1 = s and e1 = e and i1 = i
      and e = e and k = "page_count + 1"]
  by (simp add: loop_body_def loop_test_def)

lemma bfs_loop_frontier_ok:
  "frontier_ok s \<Longrightarrow> frontier_ok (snd (bfs_loop e max_pages i page_count s))"
proof (induction i page_count s rule: bfs_loop_induct [of e max_pages])
  case (exit i page_count s)
  then show ?case by (simp add: bfs_loop_exit at_test_frontier_ok)
next
  case (raised i page_count s ex s')
  then show ?case by (simp add: bfs_loop_raised loop_body_frontier_ok)
next
  case (success i page_count s s')
  then show ?case using loop_body_frontier_ok [OF success.prems success.hyps]
    by (simp add: bfs_loop_success)
next
  case (failure i page_count s s')
  then show ?case using loop_body_frontier_ok [OF failure.prems failure.hyps]
    by (simp add: bfs_loop_failure)
qed

lemma run_bfs_frontier_ok:
  "frontier_ok s \<Longrightarrow> frontier_ok (snd (run_bfs e max_pages s))"
  using bfs_loop_frontier_ok [of s e max_pages 0 0]
  by (auto simp: run_bfs_def frontier_ok_def split: prod.split sum.split)

lemma start_scraping_frontier_ok:
  "start_scraping e timestamp use_existing url_entry max_pages_entry s = (Started max_pages, s1)
   \<Longrightarrow> frontier_ok s1"
  by (auto simp: start_scraping_def Let_def frontier_ok_def popped_urls_def
           split: if_splits option.splits)

text \<open>The visited set only grows.\<close>

lemma link_loop_visited_mono: "visited s \<subseteq> visited (snd (link_loop e url links s))"
  using link_loop_offers [of e url links s] by auto

lemma scrape_page_visited_mono: "visited s \<subseteq> visited (snd (scrape_page e url k s))"
proof (cases rule: scrape_page_cases [where e = e and url = url and k = k and s = s])
  case (written resp)
  then show ?thesis
    using link_loop_visited_mono [of "written e url k resp s" e url
        "soup_hrefs e (resp_text resp)"]
    by (simp add: written_def)
qed simp_all

lemma loop_body_visited_mono:
  "loop_body e i page_count s = (r, s') \<Longrightarrow> visited s \<subseteq> visited s'"
  using scrape_page_visited_mono [of "(at_test e i s)\<lparr>queue := tl (queue (at_test e i s))\<rparr>" e
      "hd (queue (at_test e i s))" "page_count + 1"]
  by (simp add: loop_body_def at_test_def stop_scraping_def split: if_splits)

lemma bfs_loop_visited_mono:
  "visited s \<subseteq> visited (snd (bfs_loop e max_pages i page_count s))"
proof (induction i page_count s rule: bfs_loop_induct [of e max_pages])
  case (exit i page_count s)
  then show ?case by (simp add: bfs_loop_exit at_test_def stop_scraping_def)
next
  case (raised i page_count s ex s')
  then show ?case using loop_body_visited_mono [OF raised(2)] by (simp add: bfs_loop_raised)
next
  case (success i page_count s s')
  then show ?case using loop_body_visited_mono [OF success(2)] by (auto simp: bfs_loop_success)
next
  case (failure i page_count s s')
  then show ?case using loop_body_visited_mono [OF failure(2)] by (auto simp: bfs_loop_failure)
qed

lemma run_bfs_visited_mono: "visited s \<subseteq> visited (snd (run_bfs e max_pages s))"
  using bfs_loop_visited_mono [of s e max_pages 0 0]
  by (auto simp: run_bfs_def split: prod.split sum.split)

subsection \<open>The log of a run\<close>

lemma at_test_log:
  "output_area (at_test e i s) = output_area s @ (if stop_before e i then [InfoStopRequested] else [])"
  by (simp add: at_test_def stop_scraping_def)

lemma at_test_frame [simp]:
  "queue (at_test e i s) = queue s" "visited (at_test e i s) = visited s"
  "files (at_test e i s) = files s" "output_file (at_test e i s) = output_file s"
  "threads (at_test e i s) = threads s"
  by (simp_all add: at_test_def stop_scraping_def)

lemma written_frame [simp]:
  "output_area (written e url k resp s) = output_area s @ [LogScraped k url]"
  "output_file (written e url k resp s) = output_file s"
  "queue (written e url k resp s) = queue s" "visited (written e url k resp s) = visited s"
  "running (written e url k resp s) = running s" "threads (written e url k resp s) = threads s"
  by (simp_all add: written_def)

text \<open>What one turn of the loop adds to the log.\<close>

lemma loop_body_log:
  assumes "loop_body e i page_count s = (r, s')"
  shows "\<exists>mid. output_area s' = output_area s @ mid \<and> \<not> list_ex is_finished mid \<and>
           list_all (log_sound e) mid \<and>
           (\<forall>ok. r = Inr ok \<longrightarrow>
              concat (map scraped_id mid) = (if ok then [page_count + 1] else []) \<and>
              filter is_scraped mid =
                (if ok then [LogScraped (page_count + 1) (hd (queue s))] else []))"
proof -
  let ?s1 = "(at_test e i s)\<lparr>queue := tl (queue (at_test e i s))\<rparr>"
  let ?u = "hd (queue s)"
  let ?stop = "if stop_before e i then [InfoStopRequested] else []"
  have sp: "scrape_page e ?u (page_count + 1) ?s1 = (r, s')"
    using assms by (simp add: loop_body_def)
  show ?thesis
  proof (cases rule: scrape_page_cases [where e = e and url = "?u" and k = "page_count + 1" and s = "?s1"])
    case (fetch_failed err)
    then show ?thesis using sp
      by (intro exI [of _ "?stop @ [LogError ?u err]"]) (auto simp: at_test_log)
  next
    case (write_failed resp)
    then show ?thesis using sp
      by (intro exI [of _ "?stop"]) (auto simp: at_test_log)
  next
    case (written resp)
    then show ?thesis using sp
      by (intro exI [of _ "?stop @ [LogScraped (page_count + 1) ?u]"])
         (auto simp: at_test_log link_loop_frame split: option.splits)
  qed
qed

lemma bfs_loop_log:
  "bfs_loop e max_pages i page_count s = (r, s') \<Longrightarrow>
   \<exists>new. output_area s' = output_area s @ new \<and> \<not> list_ex is_finished new \<and>
         list_all (log_sound e) new \<and>
         (\<forall>n. r = Inr n \<longrightarrow>
            n = page_count + int (length (filter is_scraped new)) \<and>
            n \<le> max page_count max_pages \<and>
            concat (map scraped_id new) = [page_count + 1..n])"
proof (induction i page_count s arbitrary: r s' rule: bfs_loop_induct [of e max_pages])
  case (exit i page_count s)
  then have "r = Inr page_count" "s' = at_test e i s" by (simp_all add: bfs_loop_exit)
  then show ?case
    by (intro exI [of _ "if stop_before e i then [InfoStopRequested] else []"])
       (auto simp: at_test_log)
next
  case (raised i page_count s ex s1)
  then have "r = Inl ex" "s' = s1" by (simp_all add: bfs_loop_raised)
  with loop_body_log [OF raised(2)] show ?case by auto
next
  case (success i page_count s s1)
  from loop_body_log [OF success(2)] obtain mid where
    mid: "output_area s1 = output_area s @ mid" "\<not> list_ex is_finished mid"
      "list_all (log_sound e) mid" "concat (map scraped_id mid) = [page_count + 1]"
      "filter is_scraped mid = [LogScraped (page_count + 1) (hd (queue s))]"
    by auto
  have "bfs_loop e max_pages (Suc i) (page_count + 1) s1 = (r, s')"
    using success by (simp add: bfs_loop_success)
  from success.IH [OF this] obtain new where
    new: "output_area s' = output_area s1 @ new" "\<not> list_ex is_finished new"
      "list_all (log_sound e) new"
      "\<And>n. r = Inr n \<Longrightarrow> n = page_count + 1 + int (length (filter is_scraped new)) \<and>
            n \<le> max (page_count + 1) max_pages \<and>
            concat (map scraped_id new) = [page_count + 1 + 1..n]"
    by blast
  have lt: "page_count < max_pages" using success(1) by (simp add: loop_test_def)
  show ?case
  proof (intro exI [of _ "mid @ new"] conjI allI impI)
    fix n assume r: "r = Inr n"
    note n = new(4) [OF r]
    show "n = page_count + int (length (filter is_scraped (mid @ new)))"
      using n mid(5) by simp
    show "n \<le> max page_count max_pages" using n lt by simp
    have "page_count + 1 \<le> n" using n by simp
    then have "[page_count + 1..n] = (page_count + 1) # [page_count + 1 + 1..n]"
      by (simp add: upto_rec1)
    then show "concat (map scraped_id (mid @ new)) = [page_count + 1..n]"
      using n mid(4) by simp
  qed (use mid new in auto)
next
  case (failure i page_count s s1)
  from loop_body_log [OF failure(2)] obtain mid where
    mid: "output_area s1 = output_area s @ mid" "\<not> list_ex is_finished mid"
      "list_all (log_sound e) mid" "concat (map scraped_id mid) = []"
      "filter is_scraped mid = []"
    by auto
  have "bfs_loop e max_pages (Suc i) page_count s1 = (r, s')"
    using failure by (simp add: bfs_loop_failure)
  from failure.IH [OF this] obtain new where
    new: "output_area s' = output_area s1 @ new" "\<not> list_ex is_finished new"
      "list_all (log_sound e) new"
      "\<And>n. r = Inr n \<Longrightarrow> n = page_count + int (length (filter is_scraped new)) \<and>
            n \<le> max page_count max_pages \<and>
            concat (map scraped_id new) = [page_count + 1..n]"
    by blast
  show ?case
    using mid new by (intro exI [of _ "mid @ new"]) auto
qed

subsection \<open>The files of a run\<close>

lemma files_grow_refl [simp]: "files_grow s s"
  by (simp add: files_grow_def)

lemma files_grow_trans: "files_grow s s1 \<Longrightarrow> files_grow s1 s2 \<Longrightarrow> files_grow s s2"
  unfolding files_grow_def
proof (intro allI impI)
  fix p c
  assume a: "\<forall>p c. files s p = Some c \<longrightarrow> (\<exists>c'. files s1 p = Some (c @ c'))"
    and b: "\<forall>p c. files s1 p = Some c \<longrightarrow> (\<exists>c'. files s2 p = Some (c @ c'))"
    and c: "files s p = Some c"
  from a c obtain c1 where "files s1 p = Some (c @ c1)" by blast
  with b obtain c2 where "files s2 p = Some ((c @ c1) @ c2)" by blast
  then show "\<exists>c'. files s2 p = Some (c @ c')" by simp
qed

lemma files_grow_same: "files s' = files s \<Longrightarrow> files_grow s s'"
  by (simp add: files_grow_def)

lemma append_record_files_grow: "files_grow s (snd (append_record e url k t s))"
  by (auto simp: files_grow_def append_record_def py_write_def Let_def split: io_outcome.split)

lemma scrape_page_files_grow: "files_grow s (snd (scrape_page e url k s))"
proof (cases rule: scrape_page_cases [where e = e and url = url and k = k and s = s])
  case (fetch_failed err)
  then show ?thesis by (simp add: files_grow_same)
next
  case (write_failed resp)
  then show ?thesis by (simp add: append_record_files_grow)
next
  case (written resp)
  have "files_grow s (written e url k resp s)"
    using append_record_files_grow [of s e url k "soup_text e (resp_text resp)"]
    by (simp add: files_grow_def written_def)
  moreover have "files_grow (written e url k resp s)
       (snd (link_loop e url (soup_hrefs e (resp_text resp)) (written e url k resp s)))"
    by (simp add: files_grow_same link_loop_frame)
  ultimately show ?thesis using written by (auto intro: files_grow_trans)
qed

lemma loop_body_files_grow: "loop_body e i page_count s = (r, s') \<Longrightarrow> files_grow s s'"
  using scrape_page_files_grow [of "(at_test e i s)\<lparr>queue := tl (queue (at_test e i s))\<rparr>" e
      "hd (queue (at_test e i s))" "page_count + 1"]
  by (simp add: loop_body_def files_grow_def)

lemma bfs_loop_files_grow:
  "files_grow s (snd (bfs_loop e max_pages i page_count s))"
proof (induction i page_count s rule: bfs_loop_induct [of e max_pages])
  case (exit i page_count s)
  then show ?case by (simp add: bfs_loop_exit files_grow_same)
next
  case (raised i page_count s ex s')
  then show ?case using loop_body_files_grow [OF raised(2)] by (simp add: bfs_loop_raised)
next
  case (success i page_count s s')
  then show ?case using loop_body_files_grow [OF success(2)]
    by (auto simp: bfs_loop_success intro: files_grow_trans)
next
  case (failure i page_count s s')
  then show ?case using loop_body_files_grow [OF failure(2)]
    by (auto simp: bfs_loop_failure intro: files_grow_trans)
qed

lemma run_bfs_files_grow: "files_grow s (snd (run_bfs e max_pages s))"
  using bfs_loop_files_grow [of s e max_pages 0 0]
  by (auto simp: run_bfs_def files_grow_def split: prod.split sum.split)

text \<open>The corpus file and the log stay in step.\<close>

lemma scrape_page_output_file: "output_file (snd (scrape_page e url k s)) = output_file s"
  by (cases rule: scrape_page_cases [where e = e and url = url and k = k and s = s])
     (simp_all add: link_loop_frame)

lemma scrape_page_file_ok:
  assumes "file_ok e s" "scrape_page e url k s = (Inr ok, s')"
  shows "file_ok e s'"
proof (cases rule: scrape_page_cases [where e = e and url = url and k = k and s = s])
  case (fetch_failed err)
  then show ?thesis using assms by (auto simp: file_ok_def)
next
  case (write_failed resp)
  then show ?thesis using assms by simp
next
  case (written resp)
  have "file_ok e (written e url k resp s)"
    using assms(1) written(1,2)
    by (auto simp: file_ok_def written_def append_record_def py_write_def Let_def
             split: io_outcome.splits)
  then show ?thesis using written assms(2)
    by (auto simp: file_ok_def link_loop_frame)
qed

lemma loop_body_file_ok:
  "file_ok e s \<Longrightarrow> loop_body e i page_count s = (Inr ok, s') \<Longrightarrow> file_ok e s'"
proof -
  assume a: "file_ok e s" and b: "loop_body e i page_count s = (Inr ok, s')"
  have "file_ok e ((at_test e i s)\<lparr>queue := tl (queue (at_test e i s))\<rparr>)"
    using a by (auto simp: file_ok_def at_test_def stop_scraping_def)
  from scrape_page_file_ok [OF this] b show ?thesis by (simp add: loop_body_def)
qed

lemma bfs_loop_file_ok:
  "file_ok e s \<Longrightarrow> bfs_loop e max_pages i page_count s = (Inr n, s') \<Longrightarrow> file_ok e s'"
proof (induction i page_count s rule: bfs_loop_induct [of e max_pages])
  case (exit i page_count s)
  then show ?case by (auto simp: bfs_loop_exit file_ok_def at_test_def stop_scraping_def)
next
  case (raised i page_count s ex s1)
  then show ?case by (simp add: bfs_loop_raised)
next
  case (success i page_count s s1)
  then show ?case using loop_body_file_ok [OF success.prems(1) success.hyps(2)]
    by (simp add: bfs_loop_success)
next
  case (failure i page_count s s1)
  then show ?case using loop_body_file_ok [OF failure.prems(1) failure.hyps(2)]
    by (simp add: bfs_loop_failure)
qed

subsection \<open>The example run, evaluated\<close>

lemmas demo_defs =
  demo_s0_def init_def demo_env_def demo_get_def demo_hrefs_def
  start_scraping_def get_timestamped_filename_def header_def py_write_def
  py_strip_def is_space_def py_int_def int_space_def is_digit_def Let_def

lemmas run_defs =
  run_bfs_def bfs_loop.simps stop_scraping_def scrape_page_def append_record_def fetch_def
  raise_for_status_def offer_def startswith_def page_record_def str_int_def str_nat.simps digit_char_def

lemma demo_start_outcome:
  "fst (start_scraping demo_env ''T1'' False '' http://a/ '' ''5'' demo_s0) = Started 5"
  by (simp add: demo_defs)

lemma demo_started_fields:
  "queue demo_started = [''http://a/'']"
  "visited demo_started = {''http://a/''}"
  "running demo_started"
  "output_file demo_started = ''scraped_data_T1.txt''"
  "output_area demo_started = [InfoOutputFile ''scraped_data_T1.txt'', InfoStarting ''http://a/'']"
  "files demo_started ''scraped_data_T1.txt'' = Some header"
  "threads demo_started = [5]"
  by (simp_all add: demo_started_def demo_defs)

lemma demo_run_outcome: "fst (run_bfs demo_env 5 demo_started) = Inr 2"
  by (simp add: demo_started_def demo_defs run_defs)

lemma demo_finished_fields:
  "queue demo_finished = []"
  "visited demo_finished = {''http://a/'', ''http://a/b'', ''http://a/c''}"
  "\<not> running demo_finished"
  "output_file demo_finished = ''scraped_data_T1.txt''"
  "output_area demo_finished =
     [InfoOutputFile ''scraped_data_T1.txt'', InfoStarting ''http://a/'',
      LogScraped 1 ''http://a/'', LogScraped 2 ''http://a/b'',
      LogError ''http://a/c'' ConnectionError, InfoFinished 2]"
  "files demo_finished ''scraped_data_T1.txt'' =
     Some (''=== Begin scraping ==='' @ [nl] @
           [nl] @ ''=== Page #1: http://a/ ==='' @ [nl, nl] @ ''A'' @ [nl, nl] @
           [nl] @ ''=== Page #2: http://a/b ==='' @ [nl, nl] @ ''B'' @ [nl, nl])"
  "threads demo_finished = [5]"
  by (simp_all add: demo_finished_def demo_started_def demo_defs run_defs insert_commute)

lemma demo_start: "start_scraping demo_env ''T1'' False '' http://a/ '' ''5'' demo_s0 = (Started 5, demo_started)"
  using demo_start_outcome by (simp add: prod_eq_iff demo_started_def)

lemma demo_run: "run_bfs demo_env 5 demo_started = (Inr 2, demo_finished)"
  using demo_run_outcome by (simp add: prod_eq_iff demo_finished_def)

subsection \<open>After start_scraping\<close>

lemma start_scraping_file_ok:
  "start_scraping e timestamp use_existing url_entry max_pages_entry s = (Started max_pages, s1)
   \<Longrightarrow> file_ok e s1"
  by (auto simp: start_scraping_def Let_def file_ok_def py_write_def
           split: if_splits option.splits io_outcome.splits)

lemma start_scraping_log:
  "start_scraping e timestamp use_existing url_entry max_pages_entry s = (Started max_pages, s1)
   \<Longrightarrow> output_area s1 = [InfoOutputFile (output_file s1), InfoStarting (py_strip url_entry)]"
  by (auto simp: start_scraping_def Let_def split: if_splits option.splits)

text \<open>The path of the corpus file does not change during a run.\<close>

lemma loop_body_output_file:
  "loop_body e i page_count s = (r, s') \<Longrightarrow> output_file s' = output_file s"
  using scrape_page_output_file [of e "hd (queue (at_test e i s))" "page_count + 1"
      "(at_test e i s)\<lparr>queue := tl (queue (at_test e i s))\<rparr>"]
  by (simp add: loop_body_def)

lemma bfs_loop_output_file:
  "output_file (snd (bfs_loop e max_pages i page_count s)) = output_file s"
proof (induction i page_count s rule: bfs_loop_induct [of e max_pages])
  case (exit i page_count s)
  then show ?case by (simp add: bfs_loop_exit)
next
  case (raised i page_count s ex s')
  then show ?case using loop_body_output_file [OF raised(2)] by (simp add: bfs_loop_raised)
next
  case (success i page_count s s')
  then show ?case using loop_body_output_file [OF success(2)] by (simp add: bfs_loop_success)
next
  case (failure i page_count s s')
  then show ?case using loop_body_output_file [OF failure(2)] by (simp add: bfs_loop_failure)
qed

text \<open>The running flag is still set when an exception leaves the loop.\<close>

lemma scrape_page_running: "running (snd (scrape_page e url k s)) = running s"
  by (cases rule: scrape_page_cases [where e = e and url = url and k = k and s = s])
     (simp_all add: link_loop_frame)

lemma loop_body_running:
  "loop_test e max_pages i page_count s \<Longrightarrow> loop_body e i page_count s = (r, s') \<Longrightarrow> running s'"
  using scrape_page_running [of e "hd (queue (at_test e i s))" "page_count + 1"
      "(at_test e i s)\<lparr>queue := tl (queue (at_test e i s))\<rparr>"]
  by (simp add: loop_body_def loop_test_def)

lemma bfs_loop_raised_running:
  "bfs_loop e max_pages i page_count s = (Inl ex, s') \<Longrightarrow> running s'"
proof (induction i page_count s rule: bfs_loop_induct [of e max_pages])
  case (exit i page_count s)
  then show ?case by (simp add: bfs_loop_exit)
next
  case (raised i page_count s ex1 s1)
  then show ?case using loop_body_running [OF raised(1,2)] by (simp add: bfs_loop_raised)
next
  case (success i page_count s s1)
  then show ?case by (simp add: bfs_loop_success)
next
  case (failure i page_count s s1)
  then show ?case by (simp add: bfs_loop_failure)
qed

text \<open>When the \<^verbatim>\<open>try\<close> block raises.\<close>

lemma fetch_fails:
  "get e u = Raises err \<or>
   (\<exists>resp. get e u = Returns resp \<and> 400 \<le> status_code resp \<and> status_code resp < 600 \<and>
           err = HTTPError (status_code resp))
   \<Longrightarrow> fetch e u = Inl err"
  by (auto simp: fetch_def raise_for_status_def)

text \<open>The example run after its first page.\<close>

lemma demo_mid_fields:
  "queue demo_mid = [''http://a/b'', ''http://a/c'']"
  "visited demo_mid = {''http://a/'', ''http://a/b'', ''http://a/c''}"
  "running demo_mid"
  "output_file demo_mid = ''scraped_data_T1.txt''"
  "files demo_mid ''scraped_data_T1.txt'' =
     Some (''=== Begin scraping ==='' @ [nl] @
           [nl] @ ''=== Page #1: http://a/ ==='' @ [nl, nl] @ ''A'' @ [nl, nl])"
  "threads demo_mid = [5]"
  by (simp_all add: demo_mid_def loop_body_def at_test_def demo_started_def demo_defs run_defs
        insert_commute)

subsection \<open>The link loop and the link extraction of the spec\<close>

lemmas py_defs =
  py_urljoin_def py_urlparse_scheme_def urlparse_def urlsplit_def urlunparse_def urlunsplit_def
  netloc_raises_def split_first_def splitparams_def drop_empty_inner_def
  uses_params_def uses_relative_def uses_netloc_def
  c0_or_space_def unsafe_byte_def is_lower_def is_upper_def is_digit_def scheme_char_def
  lower_char_def startswith_def Let_def

lemma link_loop_refines:
  "fst (link_loop e url links s) = None \<Longrightarrow>
   snd (link_loop e url links s) = foldl (\<lambda>s u. offer u s) s (extract_links e url links)"
proof (induction links arbitrary: s)
  case Nil
  show ?case by simp
next
  case (Cons href links)
  show ?case
  proof (cases href)
    case None
    then show ?thesis using Cons by simp
  next
    case (Some h)
    show ?thesis
    proof (cases "h = []")
      case True
      then show ?thesis using Cons Some by simp
    next
      case False
      show ?thesis
      proof (cases "urljoin e url h")
        case (Inl ex)
        then show ?thesis using Cons.prems Some False by simp
      next
        case (Inr u)
        show ?thesis
        proof (cases "urlparse_scheme e u")
          case (Inl ex)
          then show ?thesis using Cons.prems Some False Inr by simp
        next
          case sch: (Inr sch)
          show ?thesis
          proof (cases "startswith sch ''http''")
            case True
            then show ?thesis
              using Cons.prems Some False Inr sch Cons.IH [of "offer u s"] by simp
          next
            case no: False
            then show ?thesis using Cons.prems Some False Inr sch Cons.IH [of s] by simp
          qed
        qed
      qed
    qed
  qed
qed

subsection \<open>Links with another scheme, under urllib.parse\<close>

text \<open>
  A URL that begins with a scheme name and a colon is parsed with that scheme; when the
  scheme is not one that \<^verbatim>\<open>urljoin\<close> resolves, the URL is returned as it is.
\<close>

lemma scheme_char_facts:
  "scheme_char c \<Longrightarrow> \<not> c0_or_space c \<and> \<not> unsafe_byte c \<and> c \<noteq> CHR '':''"
  by (auto simp: scheme_char_def c0_or_space_def unsafe_byte_def is_lower_def is_upper_def
        is_digit_def)

lemma urlsplit_scheme:
  assumes chars: "list_all scheme_char sch" and ne: "sch \<noteq> []"
    and alpha: "is_lower (hd sch) \<or> is_upper (hd sch)"
    and split: "urlsplit bracket_ok (sch @ CHR '':'' # rest) d = Inr r"
  shows "sr_scheme r = map lower_char sch"
proof -
  obtain c cs where sch: "sch = c # cs" using ne by (cases sch) auto
  have all: "\<forall>x \<in> set sch. \<not> c0_or_space x \<and> \<not> unsafe_byte x \<and> x \<noteq> CHR '':''"
    using chars scheme_char_facts by (auto simp: list_all_iff)
  have d: "dropWhile c0_or_space (sch @ CHR '':'' # rest) = sch @ CHR '':'' # rest"
    using all sch by simp
  have f: "filter (\<lambda>c. \<not> unsafe_byte c) (sch @ CHR '':'' # rest)
             = sch @ CHR '':'' # filter (\<lambda>c. \<not> unsafe_byte c) rest"
    using all by (simp add: unsafe_byte_def)
  have t: "takeWhile (\<lambda>x. x \<noteq> CHR '':'') (sch @ CHR '':'' # filter (\<lambda>c. \<not> unsafe_byte c) rest) = sch"
    using all by (simp add: takeWhile_append)
  show ?thesis
    using split chars alpha ne unfolding urlsplit_def d f Let_def t
    by (auto simp: sch split: if_splits)
qed

lemma py_scheme_of:
  assumes "list_all scheme_char sch" "sch \<noteq> []" "is_lower (hd sch) \<or> is_upper (hd sch)"
    and "py_urlparse_scheme bracket_ok (sch @ CHR '':'' # rest) = Inr x"
  shows "x = map lower_char sch"
  using assms urlsplit_scheme [OF assms(1-3), of bracket_ok rest "[]"]
  by (auto simp: py_urlparse_scheme_def urlparse_def Let_def split: sum.splits)

lemma py_urljoin_other_scheme:
  assumes "list_all scheme_char sch" "sch \<noteq> []" "is_lower (hd sch) \<or> is_upper (hd sch)"
    and "map lower_char sch \<notin> set uses_relative"
    and "py_urljoin bracket_ok base (sch @ CHR '':'' # rest) = Inr u"
  shows "u = sch @ CHR '':'' # rest"
proof (cases "base = []")
  case True
  then show ?thesis using assms(5) by (simp add: py_urljoin_def)
next
  case False
  then obtain b p where b: "urlparse bracket_ok base [] = Inr b"
    and p: "urlparse bracket_ok (sch @ CHR '':'' # rest) (scheme b) = Inr p"
    using assms(5) by (auto simp: py_urljoin_def split: sum.splits)
  have "scheme p = map lower_char sch"
    using p urlsplit_scheme [OF assms(1-3), of bracket_ok rest "scheme b"]
    by (auto simp: urlparse_def Let_def split: sum.splits)
  then show ?thesis
    using assms(4,5) False b p by (simp add: py_urljoin_def)
qed

lemma py_other_scheme_not_extracted:
  assumes "list_all scheme_char sch" "sch \<noteq> []" "is_lower (hd sch) \<or> is_upper (hd sch)"
    and "map lower_char sch \<notin> set uses_relative"
    and "\<not> startswith (map lower_char sch) ''http''"
  shows "extract_links (py_env bracket_ok e) base (Some (sch @ CHR '':'' # rest) # hrefs)
           = extract_links (py_env bracket_ok e) base hrefs"
proof (cases "py_urljoin bracket_ok base (sch @ CHR '':'' # rest)")
  case (Inl ex)
  then show ?thesis by (simp add: py_env_def)
next
  case (Inr u)
  then have u: "u = sch @ CHR '':'' # rest"
    using py_urljoin_other_scheme [OF assms(1-4)] by simp
  show ?thesis
  proof (cases "py_urlparse_scheme bracket_ok u")
    case (Inl ex)
    then show ?thesis using Inr by (simp add: py_env_def)
  next
    case x: (Inr x)
    then have "x = map lower_char sch" using py_scheme_of [OF assms(1-3)] u by simp
    then show ?thesis using Inr x assms(5) by (simp add: py_env_def)
  qed
qed

lemma mailto_not_extracted:
  "extract_links (py_env bracket_ok e) base (Some (''mailto:'' @ rest) # hrefs)
     = extract_links (py_env bracket_ok e) base hrefs"
  using py_other_scheme_not_extracted [of "''mailto''" bracket_ok e base rest hrefs]
  by (simp add: scheme_char_def is_lower_def is_upper_def is_digit_def lower_char_def
        uses_relative_def startswith_def)

lemma javascript_not_extracted:
  "extract_links (py_env bracket_ok e) base (Some (''javascript:'' @ rest) # hrefs)
     = extract_links (py_env bracket_ok e) base hrefs"
  using py_other_scheme_not_extracted [of "''javascript''" bracket_ok e base rest hrefs]
  by (simp add: scheme_char_def is_lower_def is_upper_def is_digit_def lower_char_def
        uses_relative_def startswith_def)

text \<open>The three links of the example page.\<close>

lemma demo_page_joins:
  "py_urljoin (\<lambda>h. True) ''https://x.test/'' ''mailto:a@b.com'' = Inr ''mailto:a@b.com''"
  "py_urljoin (\<lambda>h. True) ''https://x.test/'' ''#section'' = Inr ''https://x.test/#section''"
  "py_urljoin (\<lambda>h. True) ''https://x.test/'' ''https://x.test/y'' = Inr ''https://x.test/y''"
  by (simp_all add: py_defs)

lemma demo_page_schemes:
  "py_urlparse_scheme (\<lambda>h. True) ''mailto:a@b.com'' = Inr ''mailto''"
  "py_urlparse_scheme (\<lambda>h. True) ''https://x.test/#section'' = Inr ''https''"
  "py_urlparse_scheme (\<lambda>h. True) ''https://x.test/y'' = Inr ''https''"
  by (simp_all add: py_defs)

lemma demo_page_links:
  "extract_links (py_env (\<lambda>h. True) demo_env) ''https://x.test/''
     [Some ''mailto:a@b.com'', Some ''#section'', Some ''https://x.test/y'']
   = [''https://x.test/#section'', ''https://x.test/y'']"
  by (simp add: py_env_def demo_page_joins demo_page_schemes startswith_def)

lemma demo_page_loop:
  "fst (link_loop (py_env (\<lambda>h. True) demo_env) ''https://x.test/''
     [Some ''mailto:a@b.com'', Some ''#section'', Some ''https://x.test/y''] demo_page) = None"
  by (simp add: py_env_def demo_page_joins demo_page_schemes startswith_def)

subsection \<open>The layout of the records\<close>

text \<open>The rendering of a page number is its decimal numeral.\<close>

lemma digit_char_code: "d < 10 \<Longrightarrow> (of_char (digit_char d) :: nat) = 48 + d"
proof -
  assume "d < 10"
  then have "d = 0 \<or> d = 1 \<or> d = 2 \<or> d = 3 \<or> d = 4 \<or> d = 5 \<or> d = 6 \<or> d = 7 \<or> d = 8 \<or> d = 9"
    by arith
  then show ?thesis by (auto simp: digit_char_def)
qed

lemma digit_char_is_digit: "d < 10 \<Longrightarrow> is_digit (digit_char d)"
  by (simp add: is_digit_def digit_char_code)

lemma digit_char_zero: "d < 10 \<Longrightarrow> digit_char d = CHR ''0'' \<Longrightarrow> d = 0"
proof -
  assume lt: "d < 10" and z: "digit_char d = CHR ''0''"
  have "(of_char (digit_char d) :: nat) = 48 + d" using lt by (rule digit_char_code)
  then have "(of_char CHR ''0'' :: nat) = 48 + d" by (simp only: z)
  then show "d = 0" by simp
qed

lemma str_nat_decimal:
  "str_nat n \<noteq> [] \<and> list_all is_digit (str_nat n) \<and>
   (0 < n \<longrightarrow> hd (str_nat n) \<noteq> CHR ''0'') \<and>
   foldl (\<lambda>a c. 10 * a + (int (of_char c) - 48)) 0 (str_nat n) = int n"
proof (induction n rule: str_nat.induct)
  case (1 n)
  show ?case
  proof (cases "n < 10")
    case True
    then have s: "str_nat n = [digit_char n]" by (subst str_nat.simps) simp
    have "0 < n \<Longrightarrow> digit_char n \<noteq> CHR ''0''"
      using digit_char_zero [OF True] by auto
    then show ?thesis
      using True by (auto simp: s digit_char_is_digit digit_char_code)
  next
    case False
    then have s: "str_nat n = str_nat (n div 10) @ [digit_char (n mod 10)]"
      by (subst str_nat.simps) simp
    have pos: "0 < n div 10" using False by simp
    note ih = "1.IH" [OF False]
    have lt: "n mod 10 < 10" by simp
    have v: "int (n div 10) * 10 + int (n mod 10) = int n"
      by (metis of_nat_add of_nat_mult of_nat_numeral div_mult_mod_eq)
    have "foldl (\<lambda>a c. 10 * a + (int (of_char c) - 48)) 0 (str_nat n)
            = 10 * int (n div 10) + (int (of_char (digit_char (n mod 10))) - 48)"
      using ih by (simp add: s)
    also have "\<dots> = int n"
      using v by (simp add: digit_char_code [OF lt])
    finally have val: "foldl (\<lambda>a c. 10 * a + (int (of_char c) - 48)) 0 (str_nat n) = int n" .
    have "hd (str_nat n) \<noteq> CHR ''0''" using ih pos by (simp add: s)
    moreover have "list_all is_digit (str_nat n)"
      using ih digit_char_is_digit [OF lt] by (simp add: s)
    moreover have "str_nat n \<noteq> []" by (simp add: s)
    ultimately show ?thesis using val by simp
  qed
qed

lemma str_int_decimal:
  "0 < k \<Longrightarrow>
   str_int k \<noteq> [] \<and> list_all is_digit (str_int k) \<and> hd (str_int k) \<noteq> CHR ''0'' \<and>
   foldl (\<lambda>a c. 10 * a + (int (of_char c) - 48)) 0 (str_int k) = k"
  using str_nat_decimal [of "nat k"] by (simp add: str_int_def)

lemma digit_char_in_digits: "d < 10 \<Longrightarrow> digit_char d \<in> set ''0123456789''"
proof -
  assume "d < 10"
  then have "d = 0 \<or> d = 1 \<or> d = 2 \<or> d = 3 \<or> d = 4 \<or> d = 5 \<or> d = 6 \<or> d = 7 \<or> d = 8 \<or> d = 9"
    by arith
  then show ?thesis by (auto simp: digit_char_def)
qed

lemma str_nat_digits: "list_all (\<lambda>c. c \<in> set ''0123456789'') (str_nat n)"
proof (induction n rule: str_nat.induct)
  case (1 n)
  show ?case
  proof (cases "n < 10")
    case True
    then have "str_nat n = [digit_char n]" by (subst str_nat.simps) simp
    then show ?thesis using digit_char_in_digits [OF True] by simp
  next
    case False
    then have s: "str_nat n = str_nat (n div 10) @ [digit_char (n mod 10)]"
      by (subst str_nat.simps) simp
    have "n mod 10 < 10" by simp
    from digit_char_in_digits [OF this] "1.IH" [OF False] show ?thesis by (simp add: s)
  qed
qed

text \<open>The records of a log, written out.\<close>

lemma records_of_log:
  "list_all (log_sound e) entries \<Longrightarrow>
   concat (map (record_of e) entries) =
   concat (map (\<lambda>(k, url, txt).
                  [nl] @ ''=== Page #'' @ str_int k @ '': '' @ url @ '' ==='' @ [nl] @
                  [nl] @ txt @ [nl] @ [nl])
             (scraped_pages e entries))"
proof (induction entries)
  case Nil
  show ?case by simp
next
  case (Cons entry entries)
  then show ?case
    by (cases entry) (auto simp: page_record_def split: sum.splits)
qed

lemma scraped_pages_ids: "map fst (scraped_pages e entries) = concat (map scraped_id entries)"
proof (induction entries)
  case Nil
  show ?case by simp
next
  case (Cons entry entries)
  then show ?case by (cases entry) simp_all
qed

lemma scraped_pages_lines:
  "map (\<lambda>(k, url, txt). LogScraped k url) (scraped_pages e entries) = filter is_scraped entries"
proof (induction entries)
  case Nil
  show ?case by simp
next
  case (Cons entry entries)
  then show ?case by (cases entry) simp_all
qed

lemma scraped_pages_texts:
  "list_all (log_sound e) entries \<Longrightarrow>
   list_all (\<lambda>(k, url, txt). \<exists>resp. fetch e url = Inr resp \<and> txt = soup_text e (resp_text resp))
     (scraped_pages e entries)"
proof (induction entries)
  case Nil
  show ?case by simp
next
  case (Cons entry entries)
  then show ?case by (cases entry) (auto split: sum.splits)
qed

text \<open>The corpus file at the end of a run, in terms of the log.\<close>

lemma corpus_file_records:
  assumes "start_scraping e timestamp use_existing url_entry max_pages_entry s0 = (Started max_pages, s1)"
    and "run_bfs e max_pages s1 = (Inr n, s2)"
  shows "files s2 (output_file s2) = Some (header @ concat (map (record_of e) (output_area s2))) \<and>
         concat (map scraped_id (output_area s2)) = [1..n] \<and>
         list_all (log_sound e) (output_area s2) \<and>
         output_file s2 = output_file s1"
proof -
  obtain s' where loop: "bfs_loop e max_pages 0 0 s1 = (Inr n, s')"
    and s2: "s2 = s'\<lparr>output_area := output_area s' @ [InfoFinished n], running := False\<rparr>"
    using assms(2) by (auto simp: run_bfs_def split: prod.splits sum.splits)
  have "file_ok e s'"
    using bfs_loop_file_ok [OF start_scraping_file_ok [OF assms(1)] loop] .
  then have corpus: "files s2 (output_file s2) = Some (header @ concat (map (record_of e) (output_area s2)))"
    using s2 by (simp add: file_ok_def)
  from bfs_loop_log [OF loop] obtain new where
    new: "output_area s' = output_area s1 @ new" "list_all (log_sound e) new"
      "concat (map scraped_id new) = [0 + 1..n]"
    by blast
  have log1: "output_area s1 = [InfoOutputFile (output_file s1), InfoStarting (py_strip url_entry)]"
    using start_scraping_log [OF assms(1)] .
  have oa: "output_area s2 = output_area s1 @ new @ [InfoFinished n]"
    using new(1) s2 by simp
  have ids: "concat (map scraped_id (output_area s2)) = [1..n]"
    unfolding oa log1 using new(3) by simp
  have sound: "list_all (log_sound e) (output_area s2)"
    unfolding oa log1 using new(2) by simp
  have "output_file s' = output_file s1"
    using bfs_loop_output_file [of e max_pages 0 0 s1] loop by simp
  then have "output_file s2 = output_file s1" using s2 by simp
  with corpus ids sound show ?thesis by simp
qed


section \<open>The claims\<close>

subsection \<open>No URL is enqueued twice\<close>

text \<open>
  Claim C1. In every run, whatever links the pages hold, a URL that has been offered to
  the Frontier (it is in the visited set, the seed included) is never enqueued a second
  time: the URLs taken from the queue so far, followed by those still waiting, never repeat
  a URL and all lie in the visited set, so no URL is returned twice by the queue; and
  offering a URL of the visited set changes nothing.
\<close>

theorem frontier_never_repeats:
  assumes "start_scraping e timestamp use_existing url_entry max_pages_entry s0 = (Started max_pages, s1)"
    and "run_bfs e max_pages s1 = (r, s2)"
  shows "distinct (popped_urls (output_area s2) @ queue s2) \<and>
         set (popped_urls (output_area s2) @ queue s2) \<subseteq> visited s2 \<and>
         py_strip url_entry \<in> visited s2 \<and>
         (\<forall>u \<in> visited s2. offer u s2 = s2)"
proof -
  have "frontier_ok s2"
    using run_bfs_frontier_ok [OF start_scraping_frontier_ok [OF assms(1)], of e max_pages] assms(2)
    by simp
  moreover have "py_strip url_entry \<in> visited s1"
    using assms(1) by (auto simp: start_scraping_def Let_def split: if_splits option.splits)
  moreover have "visited s1 \<subseteq> visited s2"
    using run_bfs_visited_mono [of s1 e max_pages] assms(2) by simp
  ultimately show ?thesis by (auto simp: frontier_ok_def offer_def)
qed

theorem frontier_never_repeats_witness:
  "start_scraping demo_env ''T1'' False '' http://a/ '' ''5'' demo_s0 = (Started 5, demo_started) \<and>
   run_bfs demo_env 5 demo_started = (Inr 2, demo_finished) \<and>
   popped_urls (output_area demo_finished) = [''http://a/'', ''http://a/b'', ''http://a/c''] \<and>
   distinct (popped_urls (output_area demo_finished) @ queue demo_finished) \<and>
   offer ''http://a/b'' demo_finished = demo_finished"
proof -
  note inst = frontier_never_repeats [OF demo_start demo_run]
  have "''http://a/b'' \<in> visited demo_finished" by (simp add: demo_finished_fields)
  with inst have "offer ''http://a/b'' demo_finished = demo_finished" by blast
  moreover from inst have "distinct (popped_urls (output_area demo_finished) @ queue demo_finished)"
    by blast
  moreover have "popped_urls (output_area demo_finished) = [''http://a/'', ''http://a/b'', ''http://a/c'']"
    by (simp add: demo_finished_fields popped_urls_def)
  ultimately show ?thesis using demo_start demo_run by simp
qed


subsection \<open>Appending to the previous file\<close>

text \<open>
  Claim C2 says that with the box \<^verbatim>\<open>Append to existing file\<close> checked the previous corpus
  file is reused and opened for appending, so that the records of earlier runs stay and the
  header is written once. The code reuses the path but opens it with mode \<^verbatim>\<open>"w"\<close>: after
  a first run that wrote two records, a second start in append mode leaves the file with
  the header line alone.
\<close>

theorem append_mode_truncates:
  "files demo_finished ''scraped_data_T1.txt'' =
     Some (''=== Begin scraping ==='' @ [nl] @
           [nl] @ ''=== Page #1: http://a/ ==='' @ [nl, nl] @ ''A'' @ [nl, nl] @
           [nl] @ ''=== Page #2: http://a/b ==='' @ [nl, nl] @ ''B'' @ [nl, nl]) \<and>
   fst (start_scraping demo_env ''T2'' True ''http://a/'' ''5'' demo_finished) = Started 5 \<and>
   output_file (snd (start_scraping demo_env ''T2'' True ''http://a/'' ''5'' demo_finished))
     = ''scraped_data_T1.txt'' \<and>
   files (snd (start_scraping demo_env ''T2'' True ''http://a/'' ''5'' demo_finished))
     ''scraped_data_T1.txt'' = Some (''=== Begin scraping ==='' @ [nl])"
  by (simp add: demo_finished_fields start_scraping_def demo_env_def header_def
        get_timestamped_filename_def py_write_def py_strip_def is_space_def py_int_def int_space_def
        is_digit_def Let_def)


subsection \<open>The page count reported\<close>

text \<open>
  Claim C3, amended. When the loop of a run ends, the page count reported in the one
  \<^verbatim>\<open>BFS finished\<close> line equals the number of \<^verbatim>\<open>[SCRAPED]\<close> lines of that run, the pages are
  numbered 1, 2, ... up to that count, each \<^verbatim>\<open>[SCRAPED]\<close> line is for a URL whose fetch
  succeeded, and the count never exceeds the larger of 0 and \<^verbatim>\<open>max_pages\<close> (so it never
  exceeds a budget that is not negative).
\<close>

theorem page_count_reported:
  assumes "run_bfs e max_pages s = (Inr n, s')"
  shows "output_area s' = output_area s @ log_since s s' \<and>
         filter is_finished (log_since s s') = [InfoFinished n] \<and>
         last (output_area s') = InfoFinished n \<and>
         int (length (filter is_scraped (log_since s s'))) = n \<and>
         concat (map scraped_id (log_since s s')) = [1..n] \<and>
         list_all (log_sound e) (log_since s s') \<and>
         n \<le> max 0 max_pages"
proof -
  obtain s1 where loop: "bfs_loop e max_pages 0 0 s = (Inr n, s1)"
    and s': "s' = s1\<lparr>output_area := output_area s1 @ [InfoFinished n], running := False\<rparr>"
    using assms by (auto simp: run_bfs_def split: prod.splits sum.splits)
  from bfs_loop_log [OF loop] obtain new where
    new: "output_area s1 = output_area s @ new" "\<not> list_ex is_finished new"
      "list_all (log_sound e) new" "n = 0 + int (length (filter is_scraped new))"
      "n \<le> max 0 max_pages" "concat (map scraped_id new) = [0 + 1..n]"
    by blast
  have ls: "log_since s s' = new @ [InfoFinished n]"
    using new(1) s' by (simp add: log_since_def)
  have nf: "filter is_finished new = []"
    using new(2) by (simp add: list_ex_iff filter_empty_conv)
  have oa: "output_area s' = output_area s @ new @ [InfoFinished n]"
    using new(1) s' by simp
  have cnt: "n = int (length (filter is_scraped new))" and ids: "concat (map scraped_id new) = [1..n]"
    using new(4,6) by simp_all
  show ?thesis
    unfolding ls using oa nf new(3,5) ids cnt by simp
qed

theorem page_count_reported_witness:
  "run_bfs demo_env 5 demo_started = (Inr 2, demo_finished) \<and>
   filter is_finished (log_since demo_started demo_finished) = [InfoFinished 2] \<and>
   filter is_scraped (log_since demo_started demo_finished)
     = [LogScraped 1 ''http://a/'', LogScraped 2 ''http://a/b''] \<and>
   int (length (filter is_scraped (log_since demo_started demo_finished))) = 2 \<and>
   (2::int) \<le> max 0 5"
proof -
  note inst = page_count_reported [OF demo_run]
  from inst have "filter is_finished (log_since demo_started demo_finished) = [InfoFinished 2]"
    and "int (length (filter is_scraped (log_since demo_started demo_finished))) = 2"
    by blast+
  moreover have "filter is_scraped (log_since demo_started demo_finished)
     = [LogScraped 1 ''http://a/'', LogScraped 2 ''http://a/b'']"
    by (simp add: log_since_def demo_finished_fields demo_started_fields)
  ultimately show ?thesis using demo_run by simp
qed

text \<open>
  The claim as first stated fails for a negative budget, which \<^verbatim>\<open>start_scraping\<close> accepts:
  with the entry \<^verbatim>\<open>-1\<close> the run reports 0 pages, and 0 exceeds the budget.
\<close>

theorem page_count_exceeds_negative_budget:
  "fst (start_scraping demo_env ''T1'' False ''http://a/'' ''-1'' demo_s0) = Started (- 1) \<and>
   fst (run_bfs demo_env (- 1) (snd (start_scraping demo_env ''T1'' False ''http://a/'' ''-1'' demo_s0)))
     = Inr 0 \<and>
   (0::int) > - 1"
  by (simp add: demo_defs run_defs)


subsection \<open>Which links are offered\<close>

text \<open>
  Claim C4, amended. For every fetched page, unless a URL function raises, the link loop
  resolves each \<^verbatim>\<open>href\<close> that is not empty against the page's URL and offers to the
  Frontier exactly the resolved URLs whose scheme begins with \<^verbatim>\<open>http\<close>, in document
  order. With \<^verbatim>\<open>urljoin\<close> and \<^verbatim>\<open>urlparse\<close> of the standard library, a \<^verbatim>\<open>mailto:\<close> or
  \<^verbatim>\<open>javascript:\<close> link is never among them. A link that is only a fragment is not
  excluded: it resolves to the page's URL with that fragment, which has the page's scheme.
\<close>

theorem link_loop_offers_http_links:
  "(fst (link_loop e url links s) = None \<longrightarrow>
      snd (link_loop e url links s) = foldl (\<lambda>s u. offer u s) s (extract_links e url links)) \<and>
   extract_links (py_env bracket_ok e) url (Some (''mailto:'' @ rest) # links)
     = extract_links (py_env bracket_ok e) url links \<and>
   extract_links (py_env bracket_ok e) url (Some (''javascript:'' @ rest) # links)
     = extract_links (py_env bracket_ok e) url links"
  using link_loop_refines [of e url links s] mailto_not_extracted [of bracket_ok e url rest links]
    javascript_not_extracted [of bracket_ok e url rest links]
  by blast

theorem link_loop_offers_http_links_witness:
  "fst (link_loop (py_env (\<lambda>h. True) demo_env) ''https://x.test/''
     [Some ''mailto:a@b.com'', Some ''#section'', Some ''https://x.test/y''] demo_page) = None \<and>
   snd (link_loop (py_env (\<lambda>h. True) demo_env) ''https://x.test/''
     [Some ''mailto:a@b.com'', Some ''#section'', Some ''https://x.test/y''] demo_page)
   = offer ''https://x.test/y'' (offer ''https://x.test/#section'' demo_page)"
proof -
  note inst = link_loop_offers_http_links [of "py_env (\<lambda>h. True) demo_env" "''https://x.test/''"
      "[Some ''mailto:a@b.com'', Some ''#section'', Some ''https://x.test/y'']" demo_page]
  from inst demo_page_loop have
    "snd (link_loop (py_env (\<lambda>h. True) demo_env) ''https://x.test/''
       [Some ''mailto:a@b.com'', Some ''#section'', Some ''https://x.test/y''] demo_page)
     = foldl (\<lambda>s u. offer u s) demo_page
         (extract_links (py_env (\<lambda>h. True) demo_env) ''https://x.test/''
            [Some ''mailto:a@b.com'', Some ''#section'', Some ''https://x.test/y''])"
    by blast
  then have "snd (link_loop (py_env (\<lambda>h. True) demo_env) ''https://x.test/''
       [Some ''mailto:a@b.com'', Some ''#section'', Some ''https://x.test/y''] demo_page)
     = foldl (\<lambda>s u. offer u s) demo_page [''https://x.test/#section'', ''https://x.test/y'']"
    by (simp only: demo_page_links)
  then have "snd (link_loop (py_env (\<lambda>h. True) demo_env) ''https://x.test/''
       [Some ''mailto:a@b.com'', Some ''#section'', Some ''https://x.test/y''] demo_page)
     = offer ''https://x.test/y'' (offer ''https://x.test/#section'' demo_page)"
    by (simp only: foldl.simps)
  with demo_page_loop show ?thesis by (rule conjI)
qed

text \<open>
  The claim as first stated says that of \<^verbatim>\<open>mailto:a@b.com\<close>, \<^verbatim>\<open>#section\<close> and
  \<^verbatim>\<open>https://x.test/y\<close> only the last is offered. On the page \<^verbatim>\<open>https://x.test/\<close> the
  queue gains two URLs: \<^verbatim>\<open>https://x.test/#section\<close> as well.
\<close>

theorem fragment_link_is_offered:
  "queue demo_page = [] \<and> visited demo_page = {''https://x.test/''} \<and>
   queue (snd (link_loop (py_env (\<lambda>h. True) demo_env) ''https://x.test/''
     [Some ''mailto:a@b.com'', Some ''#section'', Some ''https://x.test/y''] demo_page))
   = [''https://x.test/#section'', ''https://x.test/y'']"
  by (simp add: py_env_def demo_page_joins demo_page_schemes startswith_def offer_def
        demo_page_def init_def)


subsection \<open>What start_scraping refuses\<close>

text \<open>
  Claim C5, amended. \<^verbatim>\<open>start_scraping\<close> fails with an error dialog, and the run never
  starts, exactly when the URL entry is empty once stripped or the max-pages entry is not an
  integer; a budget of 0 or a negative budget is an integer and is accepted. When it fails,
  no file is created, truncated or written, no thread is started, and the running flag and
  the log are as before, but the Frontier has already been reset: the queue and the visited
  set are empty.
\<close>

theorem start_scraping_rejects:
  "((\<exists>msg. fst (start_scraping e timestamp use_existing url_entry max_pages_entry s) = ShowError msg)
      \<longleftrightarrow> (py_strip url_entry = [] \<or> py_int max_pages_entry = None)) \<and>
   ((\<exists>msg. fst (start_scraping e timestamp use_existing url_entry max_pages_entry s) = ShowError msg)
      \<longrightarrow> files (snd (start_scraping e timestamp use_existing url_entry max_pages_entry s)) = files s \<and>
          threads (snd (start_scraping e timestamp use_existing url_entry max_pages_entry s)) = threads s \<and>
          running (snd (start_scraping e timestamp use_existing url_entry max_pages_entry s)) = running s \<and>
          output_area (snd (start_scraping e timestamp use_existing url_entry max_pages_entry s)) = output_area s \<and>
          queue (snd (start_scraping e timestamp use_existing url_entry max_pages_entry s)) = [] \<and>
          visited (snd (start_scraping e timestamp use_existing url_entry max_pages_entry s)) = {})"
  by (auto simp: start_scraping_def Let_def split: option.splits)

theorem start_scraping_rejects_witness:
  "py_int ''abc'' = None \<and>
   fst (start_scraping demo_env ''T2'' False ''http://a/'' ''abc'' demo_finished)
     = ShowError ''Max pages must be an integer.'' \<and>
   files (snd (start_scraping demo_env ''T2'' False ''http://a/'' ''abc'' demo_finished))
     = files demo_finished \<and>
   queue (snd (start_scraping demo_env ''T2'' False ''http://a/'' ''abc'' demo_finished)) = [] \<and>
   visited (snd (start_scraping demo_env ''T2'' False ''http://a/'' ''abc'' demo_finished)) = {}"
proof -
  have n: "py_int ''abc'' = None"
    by (simp add: py_int_def int_space_def py_strip_def is_space_def is_digit_def)
  have out: "fst (start_scraping demo_env ''T2'' False ''http://a/'' ''abc'' demo_finished)
     = ShowError ''Max pages must be an integer.''"
    by (simp add: start_scraping_def Let_def py_int_def int_space_def py_strip_def is_space_def is_digit_def)
  note inst = start_scraping_rejects [of demo_env "''T2''" False "''http://a/''" "''abc''" demo_finished]
  from inst out have
    "files (snd (start_scraping demo_env ''T2'' False ''http://a/'' ''abc'' demo_finished))
       = files demo_finished"
    "queue (snd (start_scraping demo_env ''T2'' False ''http://a/'' ''abc'' demo_finished)) = []"
    "visited (snd (start_scraping demo_env ''T2'' False ''http://a/'' ''abc'' demo_finished)) = {}"
    by blast+
  with n out show ?thesis by simp
qed

text \<open>
  The claim as first stated fails at the budgets 0 and -3: after a first run,
  \<^verbatim>\<open>start_scraping\<close> with such an entry starts a run, the visited set of the first run is
  replaced by the seed, and a new corpus file is created with its header.
\<close>

theorem budget_zero_is_accepted:
  "py_int ''0'' = Some 0 \<and> py_int ''-3'' = Some (- 3) \<and>
   fst (start_scraping demo_env ''T2'' False ''http://a/'' ''0'' demo_finished) = Started 0 \<and>
   fst (start_scraping demo_env ''T2'' False ''http://a/'' ''-3'' demo_finished) = Started (- 3) \<and>
   visited demo_finished = {''http://a/'', ''http://a/b'', ''http://a/c''} \<and>
   visited (snd (start_scraping demo_env ''T2'' False ''http://a/'' ''0'' demo_finished)) = {''http://a/''} \<and>
   queue (snd (start_scraping demo_env ''T2'' False ''http://a/'' ''0'' demo_finished)) = [''http://a/''] \<and>
   files demo_finished ''scraped_data_T2.txt'' = None \<and>
   files (snd (start_scraping demo_env ''T2'' False ''http://a/'' ''0'' demo_finished))
     ''scraped_data_T2.txt'' = Some header \<and>
   threads (snd (start_scraping demo_env ''T2'' False ''http://a/'' ''0'' demo_finished)) = [5, 0]"
proof -
  have "files demo_finished ''scraped_data_T2.txt'' = None"
    by (simp add: demo_finished_def demo_started_def demo_defs run_defs)
  then show ?thesis
    by (simp add: demo_finished_fields start_scraping_def demo_env_def
          get_timestamped_filename_def py_write_def py_strip_def is_space_def py_int_def int_space_def
          is_digit_def Let_def)
qed


subsection \<open>A page whose fetch fails\<close>

text \<open>
  Claim C6, amended. When the URL at the head of the queue is taken and its fetch raises a
  request exception (\<^verbatim>\<open>requests.get\<close> raises: timeout, connection failure, other request
  error; or \<^verbatim>\<open>raise_for_status\<close> raises, which it does for a 4xx or 5xx status), the
  exception is caught, an \<^verbatim>\<open>[ERROR]\<close> line for the URL is logged, the page count is not
  incremented, nothing is put back on the queue or added to the visited set, no file
  changes, and the loop goes on with the rest of the queue.
\<close>

theorem fetch_failure_is_skipped:
  assumes "get e u = Raises err \<or>
           (\<exists>resp. get e u = Returns resp \<and> 400 \<le> status_code resp \<and> status_code resp < 600 \<and>
                   err = HTTPError (status_code resp))"
    and "loop_test e max_pages i page_count s"
    and "queue s = u # rest"
  shows "loop_body e i page_count s =
           (Inr False, (at_test e i s)\<lparr>queue := rest,
                          output_area := output_area (at_test e i s) @ [LogError u err]\<rparr>) \<and>
         bfs_loop e max_pages i page_count s =
           bfs_loop e max_pages (Suc i) page_count
             ((at_test e i s)\<lparr>queue := rest,
                output_area := output_area (at_test e i s) @ [LogError u err]\<rparr>)"
proof -
  have f: "fetch e u = Inl err" using assms(1) by (rule fetch_fails)
  have body: "loop_body e i page_count s =
           (Inr False, (at_test e i s)\<lparr>queue := rest,
                          output_area := output_area (at_test e i s) @ [LogError u err]\<rparr>)"
    using f assms(3) by (simp add: loop_body_def scrape_page_def)
  from bfs_loop_failure [OF assms(2) body] body show ?thesis by simp
qed

theorem fetch_failure_is_skipped_witness:
  "get demo_env ''http://a/c'' = Raises ConnectionError \<and>
   loop_test demo_env 5 0 0 demo_waiting \<and>
   queue demo_waiting = [''http://a/c'', ''http://a/b''] \<and>
   bfs_loop demo_env 5 0 0 demo_waiting =
     bfs_loop demo_env 5 (Suc 0) 0
       (demo_waiting\<lparr>queue := [''http://a/b''],
          output_area := output_area demo_waiting @ [LogError ''http://a/c'' ConnectionError]\<rparr>)"
proof -
  have g: "get demo_env ''http://a/c'' = Raises ConnectionError"
    by (simp add: demo_env_def demo_get_def)
  have t: "loop_test demo_env 5 0 0 demo_waiting"
    by (simp add: loop_test_def at_test_def demo_waiting_def demo_started_fields demo_env_def)
  have q: "queue demo_waiting = [''http://a/c'', ''http://a/b'']"
    by (simp add: demo_waiting_def)
  have a: "at_test demo_env 0 demo_waiting = demo_waiting"
    by (simp add: at_test_def demo_env_def)
  from fetch_failure_is_skipped [OF disjI1 [OF g] t q] a g t q show ?thesis by simp
qed

text \<open>
  The claim as first stated counts every status outside 2xx as a failure. A response with
  status 304 does not make \<^verbatim>\<open>raise_for_status\<close> raise: the page is scraped and counted,
  and no \<^verbatim>\<open>[ERROR]\<close> line is logged.
\<close>

theorem status_304_is_scraped:
  "get demo_env_304 ''http://a/'' = Returns \<lparr>status_code = 304, resp_text = ''B''\<rparr> \<and>
   fst (run_bfs demo_env_304 5 demo_started) = Inr 1 \<and>
   output_area (snd (run_bfs demo_env_304 5 demo_started)) =
     [InfoOutputFile ''scraped_data_T1.txt'', InfoStarting ''http://a/'',
      LogScraped 1 ''http://a/'', InfoFinished 1]"
  by (simp add: demo_env_304_def demo_started_def demo_defs run_defs)


subsection \<open>start_scraping during a run\<close>

text \<open>
  Claim C7, amended. \<^verbatim>\<open>start_scraping\<close> does not look at the running flag: it is accepted
  in every state, Idle, Finished or Running alike. With a URL that is not empty, an integer
  budget and a file that can be written, it resets the Frontier to the seed alone, clears
  the log, truncates the corpus file to the header line, sets the running flag and starts
  one more BFS thread, also when a run is in progress.
\<close>

theorem start_scraping_has_no_guard:
  assumes "py_strip url_entry \<noteq> []"
    and "py_int max_pages_entry = Some max_pages"
    and "create_io e (if use_existing then output_file s else get_timestamped_filename timestamp) = IoOk"
  shows "start_scraping e timestamp use_existing url_entry max_pages_entry s =
           (Started max_pages,
            s\<lparr>output_file := (if use_existing then output_file s
                               else get_timestamped_filename timestamp),
              queue := [py_strip url_entry],
              visited := {py_strip url_entry},
              output_area := [InfoOutputFile (if use_existing then output_file s
                                               else get_timestamped_filename timestamp),
                              InfoStarting (py_strip url_entry)],
              files := (files s)((if use_existing then output_file s
                                  else get_timestamped_filename timestamp) \<mapsto> header),
              running := True,
              threads := threads s @ [max_pages]\<rparr>)"
  using assms by (cases use_existing) (simp_all add: start_scraping_def Let_def py_write_def)

theorem start_scraping_has_no_guard_witness:
  "running demo_mid \<and> py_strip ''http://a/'' \<noteq> [] \<and> py_int ''5'' = Some 5 \<and>
   create_io demo_env (output_file demo_mid) = IoOk \<and>
   start_scraping demo_env ''T2'' True ''http://a/'' ''5'' demo_mid =
     (Started 5,
      demo_mid\<lparr>output_file := output_file demo_mid,
        queue := [py_strip ''http://a/''],
        visited := {py_strip ''http://a/''},
        output_area := [InfoOutputFile (output_file demo_mid), InfoStarting (py_strip ''http://a/'')],
        files := (files demo_mid)(output_file demo_mid \<mapsto> header),
        running := True,
        threads := threads demo_mid @ [5]\<rparr>)"
proof -
  have a: "py_strip ''http://a/'' \<noteq> []" by (simp add: py_strip_def is_space_def)
  have b: "py_int ''5'' = Some 5" by (simp add: py_int_def int_space_def py_strip_def is_space_def is_digit_def)
  have c: "create_io demo_env (if True then output_file demo_mid else get_timestamped_filename ''T2'') = IoOk"
    by (simp add: demo_env_def)
  from start_scraping_has_no_guard [OF a b c] a b c demo_mid_fields(3) show ?thesis by simp
qed

text \<open>
  The claim as first stated fails in the middle of a run, after its first page: started
  again, the crawler forgets the two URLs that were waiting, truncates the corpus file and
  has a second thread.
\<close>

theorem start_while_running_resets:
  "running demo_mid \<and>
   queue demo_mid = [''http://a/b'', ''http://a/c''] \<and>
   files demo_mid ''scraped_data_T1.txt'' =
     Some (''=== Begin scraping ==='' @ [nl] @
           [nl] @ ''=== Page #1: http://a/ ==='' @ [nl, nl] @ ''A'' @ [nl, nl]) \<and>
   threads demo_mid = [5] \<and>
   fst (start_scraping demo_env ''T2'' True ''http://a/'' ''5'' demo_mid) = Started 5 \<and>
   queue (snd (start_scraping demo_env ''T2'' True ''http://a/'' ''5'' demo_mid)) = [''http://a/''] \<and>
   visited (snd (start_scraping demo_env ''T2'' True ''http://a/'' ''5'' demo_mid)) = {''http://a/''} \<and>
   files (snd (start_scraping demo_env ''T2'' True ''http://a/'' ''5'' demo_mid)) ''scraped_data_T1.txt''
     = Some (''=== Begin scraping ==='' @ [nl]) \<and>
   threads (snd (start_scraping demo_env ''T2'' True ''http://a/'' ''5'' demo_mid)) = [5, 5]"
  by (simp add: demo_mid_fields start_scraping_def demo_env_def header_def
        get_timestamped_filename_def py_write_def py_strip_def is_space_def py_int_def int_space_def
        is_digit_def Let_def)


subsection \<open>How the loop can end\<close>

text \<open>
  Claim C8, amended. When \<^verbatim>\<open>run_bfs\<close> leaves its loop through the loop test (budget
  reached, queue empty or stop seen), it writes exactly one \<^verbatim>\<open>BFS finished\<close> line, the last
  line of the log, and clears the running flag. An exception of \<^verbatim>\<open>scrape_page\<close> that is not
  a request exception (an I/O error of the record append, a \<^verbatim>\<open>ValueError\<close> of the URL
  functions) is not caught: it leaves \<^verbatim>\<open>run_bfs\<close>, no \<^verbatim>\<open>BFS finished\<close> line is written and the
  running flag stays set. In both cases the log only grows, and so does every file: what a
  file held before the run is a prefix of what it holds after, so an I/O error leaves the
  records already written as they were.
\<close>

theorem run_bfs_exits:
  assumes "run_bfs e max_pages s = (r, s')"
  shows "(case r of
            Inr n \<Rightarrow> filter is_finished (log_since s s') = [InfoFinished n] \<and>
                     last (output_area s') = InfoFinished n \<and> \<not> running s'
          | Inl ex \<Rightarrow> filter is_finished (log_since s s') = [] \<and> running s') \<and>
         output_area s' = output_area s @ log_since s s' \<and>
         (\<forall>p c. files s p = Some c \<longrightarrow> (\<exists>c'. files s' p = Some (c @ c')))"
proof -
  obtain r1 s1 where loop: "bfs_loop e max_pages 0 0 s = (r1, s1)" by force
  from bfs_loop_log [OF loop] obtain new where
    new: "output_area s1 = output_area s @ new" "\<not> list_ex is_finished new"
    by blast
  have nf: "filter is_finished new = []"
    using new(2) by (simp add: list_ex_iff filter_empty_conv)
  have grow: "\<forall>p c. files s p = Some c \<longrightarrow> (\<exists>c'. files s' p = Some (c @ c'))"
    using run_bfs_files_grow [of s e max_pages] assms by (simp add: files_grow_def)
  show ?thesis
  proof (cases r1)
    case (Inl ex)
    then have r: "r = Inl ex" and s': "s' = s1" using assms loop by (simp_all add: run_bfs_def)
    have "log_since s s' = new" using new(1) s' by (simp add: log_since_def)
    moreover have "running s'" using bfs_loop_raised_running [of e max_pages 0 0 s ex s1] loop Inl s'
      by simp
    ultimately show ?thesis using r nf grow new(1) s' by simp
  next
    case (Inr n)
    then have r: "r = Inr n"
      and s': "s' = s1\<lparr>output_area := output_area s1 @ [InfoFinished n], running := False\<rparr>"
      using assms loop by (simp_all add: run_bfs_def)
    have ls: "log_since s s' = new @ [InfoFinished n]" using new(1) s' by (simp add: log_since_def)
    have oa: "output_area s' = output_area s @ new @ [InfoFinished n]" using new(1) s' by simp
    have "\<not> running s'" using s' by simp
    then show ?thesis unfolding ls using r nf grow oa by simp
  qed
qed

theorem run_bfs_exits_witness:
  "run_bfs demo_env 5 demo_started = (Inr 2, demo_finished) \<and>
   files demo_started ''scraped_data_T1.txt'' = Some header \<and>
   filter is_finished (log_since demo_started demo_finished) = [InfoFinished 2] \<and>
   \<not> running demo_finished \<and>
   (\<exists>c'. files demo_finished ''scraped_data_T1.txt'' = Some (header @ c'))"
proof -
  note inst = run_bfs_exits [OF demo_run]
  have h: "files demo_started ''scraped_data_T1.txt'' = Some header"
    by (rule demo_started_fields)
  from inst h have "\<exists>c'. files demo_finished ''scraped_data_T1.txt'' = Some (header @ c')"
    by blast
  moreover from inst have "filter is_finished (log_since demo_started demo_finished) = [InfoFinished 2]"
    and "\<not> running demo_finished"
    by simp_all
  ultimately show ?thesis using demo_run h by simp
qed

text \<open>
  The claim as first stated fails when the disk refuses the record of the second page: the
  exception leaves the loop, and no \<^verbatim>\<open>BFS finished\<close> line follows.
\<close>

theorem io_error_leaves_no_report:
  "fst (run_bfs demo_env_disk 5 demo_started) = Inl OSError \<and>
   filter is_finished (output_area (snd (run_bfs demo_env_disk 5 demo_started))) = [] \<and>
   output_area (snd (run_bfs demo_env_disk 5 demo_started)) =
     [InfoOutputFile ''scraped_data_T1.txt'', InfoStarting ''http://a/'', LogScraped 1 ''http://a/''] \<and>
   running (snd (run_bfs demo_env_disk 5 demo_started))"
  by (simp add: demo_env_disk_def demo_started_def demo_defs run_defs)


subsection \<open>The format of the corpus file\<close>

text \<open>
  Claim C9. When a run has started and its loop has ended, the corpus file holds the header
  line \<^verbatim>\<open>=== Begin scraping ===\<close>, once, followed by one record block for each page scraped,
  in scrape order and nothing else. A block is an empty line, the delimiter line
  \<^verbatim>\<open>=== Page #<n>: <url> ===\<close>, an empty line, the text extracted from that page, the end of
  its line and an empty line. The pages are those of the \<^verbatim>\<open>[SCRAPED]\<close> lines of the log, each
  with the text extracted from the response to its URL; their numbers are 1, 2, ... up to
  the count reported, and each number is written as its decimal numeral: digits only, no
  leading zero, with the number as value.
\<close>

theorem corpus_file_format:
  assumes "start_scraping e timestamp use_existing url_entry max_pages_entry s0 = (Started max_pages, s1)"
    and "run_bfs e max_pages s1 = (Inr n, s2)"
  shows "files s2 (output_file s2) =
           Some (''=== Begin scraping ==='' @ [nl] @
                 concat (map (\<lambda>(k, url, txt).
                                [nl] @ ''=== Page #'' @ str_int k @ '': '' @ url @ '' ==='' @ [nl] @
                                [nl] @ txt @ [nl] @ [nl])
                           (scraped_pages e (output_area s2)))) \<and>
         map fst (scraped_pages e (output_area s2)) = [1..n] \<and>
         map (\<lambda>(k, url, txt). LogScraped k url) (scraped_pages e (output_area s2))
           = filter is_scraped (output_area s2) \<and>
         list_all (\<lambda>(k, url, txt). \<exists>resp. fetch e url = Inr resp \<and> txt = soup_text e (resp_text resp))
           (scraped_pages e (output_area s2)) \<and>
         (\<forall>k \<in> set [1..n].
            str_int k \<noteq> [] \<and> list_all (\<lambda>c. c \<in> set ''0123456789'') (str_int k) \<and>
            hd (str_int k) \<noteq> CHR ''0'' \<and>
            foldl (\<lambda>a c. 10 * a + (int (of_char c) - 48)) 0 (str_int k) = k) \<and>
         output_file s2 = output_file s1"
proof -
  note rec = corpus_file_records [OF assms]
  have sound: "list_all (log_sound e) (output_area s2)" using rec by blast
  have "files s2 (output_file s2) = Some (header @ concat (map (record_of e) (output_area s2)))"
    using rec by (rule conjunct1)
  then have corpus: "files s2 (output_file s2) =
           Some (''=== Begin scraping ==='' @ [nl] @
                 concat (map (\<lambda>(k, url, txt).
                                [nl] @ ''=== Page #'' @ str_int k @ '': '' @ url @ '' ==='' @ [nl] @
                                [nl] @ txt @ [nl] @ [nl])
                           (scraped_pages e (output_area s2))))"
    by (simp only: records_of_log [OF sound] header_def append_assoc)
  have "concat (map scraped_id (output_area s2)) = [1..n]" using rec by blast
  then have ids: "map fst (scraped_pages e (output_area s2)) = [1..n]"
    by (simp add: scraped_pages_ids)
  have dec: "\<forall>k \<in> set [1..n].
            str_int k \<noteq> [] \<and> list_all (\<lambda>c. c \<in> set ''0123456789'') (str_int k) \<and>
            hd (str_int k) \<noteq> CHR ''0'' \<and>
            foldl (\<lambda>a c. 10 * a + (int (of_char c) - 48)) 0 (str_int k) = k"
  proof
    fix k assume "k \<in> set [1..n]"
    then have "0 < k" by simp
    from str_int_decimal [OF this] have d: "str_int k \<noteq> []" "list_all is_digit (str_int k)"
      "hd (str_int k) \<noteq> CHR ''0''"
      "foldl (\<lambda>a c. 10 * a + (int (of_char c) - 48)) 0 (str_int k) = k"
      by blast+
    have "list_all (\<lambda>c. c \<in> set ''0123456789'') (str_int k)"
      using \<open>0 < k\<close> str_nat_digits [of "nat k"] by (simp add: str_int_def)
    with d show "str_int k \<noteq> [] \<and> list_all (\<lambda>c. c \<in> set ''0123456789'') (str_int k) \<and>
            hd (str_int k) \<noteq> CHR ''0'' \<and>
            foldl (\<lambda>a c. 10 * a + (int (of_char c) - 48)) 0 (str_int k) = k"
      by blast
  qed
  have "output_file s2 = output_file s1" using rec by blast
  with corpus ids dec scraped_pages_lines [of e "output_area s2"]
    scraped_pages_texts [OF sound]
  show ?thesis by blast
qed

theorem corpus_file_format_witness:
  "start_scraping demo_env ''T1'' False '' http://a/ '' ''5'' demo_s0 = (Started 5, demo_started) \<and>
   run_bfs demo_env 5 demo_started = (Inr 2, demo_finished) \<and>
   scraped_pages demo_env (output_area demo_finished)
     = [(1, ''http://a/'', ''A''), (2, ''http://a/b'', ''B'')] \<and>
   files demo_finished (output_file demo_finished) =
     Some (''=== Begin scraping ==='' @ [nl] @
           concat (map (\<lambda>(k, url, txt).
                          [nl] @ ''=== Page #'' @ str_int k @ '': '' @ url @ '' ==='' @ [nl] @
                          [nl] @ txt @ [nl] @ [nl])
                     (scraped_pages demo_env (output_area demo_finished)))) \<and>
   files demo_finished ''scraped_data_T1.txt'' =
     Some (''=== Begin scraping ==='' @ [nl] @
           [nl] @ ''=== Page #1: http://a/ ==='' @ [nl, nl] @ ''A'' @ [nl, nl] @
           [nl] @ ''=== Page #2: http://a/b ==='' @ [nl, nl] @ ''B'' @ [nl, nl]) \<and>
   str_int 1 = ''1'' \<and> str_int 2 = ''2''"
proof -
  note inst = corpus_file_format [OF demo_start demo_run]
  from inst have "files demo_finished (output_file demo_finished) =
     Some (''=== Begin scraping ==='' @ [nl] @
           concat (map (\<lambda>(k, url, txt).
                          [nl] @ ''=== Page #'' @ str_int k @ '': '' @ url @ '' ==='' @ [nl] @
                          [nl] @ txt @ [nl] @ [nl])
                     (scraped_pages demo_env (output_area demo_finished))))"
    by (rule conjunct1)
  moreover have "scraped_pages demo_env (output_area demo_finished)
     = [(1, ''http://a/'', ''A''), (2, ''http://a/b'', ''B'')]"
    by (simp add: demo_finished_fields fetch_def raise_for_status_def demo_env_def demo_get_def)
  moreover have "str_int 1 = ''1''" "str_int 2 = ''2''"
    by (simp_all add: str_int_def str_nat.simps digit_char_def)
  ultimately show ?thesis using demo_start demo_run demo_finished_fields(6) by blast
qed


subsection \<open>Anchors without a target\<close>

text \<open>
  Claim C10. During link extraction an anchor whose \<^verbatim>\<open>href\<close> is missing or is the empty
  string is skipped: the loop over a page's anchors does exactly what it does on the same
  anchors with those removed, whatever \<^verbatim>\<open>urljoin\<close> would make of them, so such an anchor
  is neither resolved nor offered to the Frontier.
\<close>

theorem link_loop_skips_missing_href:
  "link_loop e url links s =
   link_loop e url (filter (\<lambda>href. href \<noteq> None \<and> href \<noteq> Some []) links) s"
  by (induction links arbitrary: s) (auto split: option.split sum.split)

end
